theory Spec2Isabelle
  imports Main "HOL-Library.Char_ord" "HOL-Library.List_Lexorder"
begin

section \<open>couch-migrate: the data of \<open>src/index.js\<close>\<close>

text \<open>
  The program is one exported function that pages through a CouchDB view, splits each
  page into sub-batches, asks the user's callbacks for extra keys and document changes,
  posts the changes with one bulk call per attempt and retries the rows whose writes
  conflicted. It is written with callbacks, but only one call is ever in flight, so the
  model is sequential: every function takes the state and returns an outcome, the new
  state and the list of events it produced, in order. An exception that no \<open>try\<close> catches
  is an outcome too: it ends every function on the stack.

  The store and the user's callbacks are parameters. Each of them may read and change
  the outside world (the database contents, a counter in a closure), so each takes a
  world \<open>'w\<close> and returns the new one with its answer.
\<close>

type_synonym docid = string

text \<open>An error value handed to a callback's \<open>err\<close> argument or thrown (a truthy value).\<close>

datatype error = Err string

text \<open>
  How a call fails. \<open>Failed e\<close>: the call answers with the error \<open>e\<close> in the way its kind
  of function has for it: a store operation and an asynchronous user function hand \<open>e\<close>
  to their callback (\<open>cb(err)\<close>), a synchronous user function throws \<open>e\<close>. \<open>Threw e\<close>: an
  asynchronous user function throws \<open>e\<close> instead of calling back.
\<close>

datatype failure = Failed error | Threw error

text \<open>
  A view row \<open>{key, id?, value}\<close>. \<open>getExtraKeyInfo\<close> attaches \<open>extraKeys\<close> to the row
  object before anything reads the field; a row fresh from the view carries \<open>[]\<close> here.
\<close>

record ('k, 'v) row =
  row_key :: 'k
  row_id :: "docid option"
  row_value :: 'v
  extraKeys :: "docid list"

text \<open>The query parameters object, mutated in place by \<open>getViewInBatches\<close>.\<close>

record 'k params =
  limit :: "nat option"
  startkey :: "'k option"
  startkey_docid :: "docid option"

text \<open>
  What a callback may hand back: nothing (\<open>undefined\<close>), one value, or an array of values
  (\<open>fetchKeys(row) \<rightarrow> key | [keys] | none\<close>, \<open>changes(row, docs) \<rightarrow> change | [changes] | none\<close>).
\<close>

datatype 'a shape = Absent | Single 'a | Several "'a list"

text \<open>One entry of the bulk call's answer: \<open>{ok: true, ...}\<close> or \<open>{error: name, ...}\<close>.\<close>

datatype wresult = Written | Rejected string

text \<open>
  A user callback as \<open>wrapAsync\<close> sees it (\<open>fn.length > cbArg\<close>): a function that does not
  declare the callback parameter is synchronous, it returns a value or throws
  (\<open>Inl e\<close>); one that declares it is asynchronous already, it calls \<open>cb(null, result)\<close> or
  \<open>cb(err)\<close> (\<open>Inl (Failed e)\<close>), once, or it throws (\<open>Inl (Threw e)\<close>).
\<close>

datatype ('a, 'r, 'w) callback =
  SyncFn "'a \<Rightarrow> 'w \<Rightarrow> (error + 'r) \<times> 'w"
| AsyncFn "'a \<Rightarrow> 'w \<Rightarrow> (failure + 'r) \<times> 'w"

text \<open>
  The three store operations of the nano database handle that the program calls. Each
  answers through the callback it is given: \<open>cb(err)\<close> (\<open>Inl e\<close>) or \<open>cb(null, body)\<close>.
\<close>

record ('k, 'v, 'd, 'w) store =
  db_view :: "'k params \<Rightarrow> 'w \<Rightarrow> (error + ('k, 'v) row list) \<times> 'w"
  db_fetch :: "docid list \<Rightarrow> 'w \<Rightarrow> (error + 'd option list) \<times> 'w"
  db_bulk :: "'d list \<Rightarrow> 'w \<Rightarrow> (error + wresult list) \<times> 'w"

text \<open>\<open>options.retryConflicts\<close>: not given, the literal \<open>false\<close>, or a number.\<close>

datatype retry_option = RetryAbsent | RetryFalse | RetryNum int

record ('k, 'v, 'd, 'w) options =
  sourceParams :: "'k params option"
  batchSize :: "nat option"
  row_limit :: "int option"
  fetchKeys :: "(('k, 'v) row, docid shape, 'w) callback option"
  changes :: "(('k, 'v) row \<times> 'd option list option, 'd shape, 'w) callback"
  sourceFilter :: "(('k, 'v) row \<Rightarrow> 'w \<Rightarrow> (error + bool) \<times> 'w) option"
  retryConflicts :: retry_option

text \<open>
  The calls that leave the program, and the events of a run. \<open>Called c r\<close> is a call of
  the store or of a user callback with its outcome (\<open>Some f\<close> when it failed).
  Three events mark the entry of an internal function with its arguments:
  \<open>PageHandler rows\<close> for the batch handler, \<open>SubBatch batch\<close> for \<open>getExtraKeyInfo\<close>,
  \<open>ProcessErrors retry batch results\<close> for \<open>processErrors\<close> (with the \<open>batch\<close> and \<open>retry\<close>
  of its closure).
\<close>

datatype ('k, 'v, 'd) call =
  View "'k params"
| Fetch "docid list"
| Bulk "'d list"
| FilterCb "('k, 'v) row"
| FetchKeysCb "('k, 'v) row"
| ChangesCb "('k, 'v) row" "'d option list option"

datatype ('k, 'v, 'd) event =
  Called "('k, 'v, 'd) call" "failure option"
| PageHandler "('k, 'v) row list"
| SubBatch "('k, 'v) row list"
| ProcessErrors int "('k, 'v) row list" "wresult list list"
| Tick int int
| ReportFailure "('k, 'v) row" error
| Complete "error option"

text \<open>
  The variables of the closure of \<open>module.exports\<close> that change during a run:
  \<open>limit\<close>, \<open>progressTokens.realcurrent\<close> and \<open>progressTokens.batch\<close>, with the world.
\<close>

record 'w mstate =
  world :: 'w
  limit_left :: "int option"
  realcurrent :: int
  batch_no :: nat

section \<open>Helpers: \<open>wrapAsync\<close>, \<open>unflatten\<close>, array slices\<close>

text \<open>
  \<open>wrapAsync(fn, cbArg)\<close>: an asynchronous function is returned as it is, so what it
  throws is thrown at the place of the call; a synchronous one is called inside \<open>try\<close>,
  a thrown error goes to \<open>cb(err)\<close>, a result to \<open>cb(null, result)\<close>.
\<close>

fun wrapAsync :: "('a, 'r, 'w) callback \<Rightarrow> 'a \<Rightarrow> 'w \<Rightarrow> (failure + 'r) \<times> 'w" where
  "wrapAsync (AsyncFn f) = f"
| "wrapAsync (SyncFn f) =
     (\<lambda>a w. case f a w of
        (Inl err, w') \<Rightarrow> (Inl (Failed err), w')
      | (Inr result, w') \<Rightarrow> (Inr result, w'))"

text \<open>
  \<open>array.slice(s, e)\<close> of JavaScript for integer arguments: a negative index counts from
  the end, both are clamped to the array.
\<close>

definition js_slice :: "'a list \<Rightarrow> int \<Rightarrow> int \<Rightarrow> 'a list" where
  "js_slice xs s e =
     (let n = int (length xs);
          from = (if s < 0 then max (n + s) 0 else min s n);
          upto = (if e < 0 then max (n + e) 0 else min e n)
      in take (nat (upto - from)) (drop (nat from) xs))"

text \<open>
  \<open>unflatten(array, counts)\<close>. A count is \<open>None\<close> when \<open>_.map(xs, 'length')\<close> met a value
  without a \<open>length\<close> property (\<open>undefined\<close>); the running index \<open>i\<close> is \<open>None\<close> once it is
  \<open>NaN\<close>. \<open>slice(i, NaN)\<close> and \<open>slice(NaN, NaN)\<close> are empty, since \<open>NaN\<close> converts to 0.
\<close>

fun unflatten_from :: "nat option \<Rightarrow> 'a list \<Rightarrow> nat option list \<Rightarrow> 'a list list" where
  "unflatten_from i array [] = []"
| "unflatten_from (Some i) array (Some c # counts) =
     take c (drop i array) # unflatten_from (Some (i + c)) array counts"
| "unflatten_from (Some i) array (None # counts) = [] # unflatten_from None array counts"
| "unflatten_from None array (c # counts) = [] # unflatten_from None array counts"

definition unflatten :: "'a list \<Rightarrow> nat option list \<Rightarrow> 'a list list" where
  "unflatten array counts = unflatten_from (Some 0) array counts"

section \<open>Configuration (lines 24--33)\<close>

text \<open>\<open>options.batchSize || 20\<close>: a missing size and the size 0 both give 20.\<close>

definition batchSizeOf :: "('k, 'v, 'd, 'w, 'z) options_scheme \<Rightarrow> nat" where
  "batchSizeOf opts = (case batchSize opts of None \<Rightarrow> 20 | Some n \<Rightarrow> if n = 0 then 20 else n)"

text \<open>\<open>options.retryConflicts === false ? 0 : options.retryConflicts || 2\<close>.\<close>

fun retries_of :: "retry_option \<Rightarrow> int" where
  "retries_of RetryFalse = 0"
| "retries_of RetryAbsent = 2"
| "retries_of (RetryNum n) = (if n = 0 then 2 else n)"

definition retries :: "('k, 'v, 'd, 'w, 'z) options_scheme \<Rightarrow> int" where
  "retries opts = retries_of (retryConflicts opts)"

text \<open>
  \<open>wrapAsync(options.fetchKeys || function(key, cb) {cb();}, 1)\<close>: the default calls back
  with no error and no result.
\<close>

definition fetchKeysFn ::
  "('k, 'v, 'd, 'w, 'z) options_scheme \<Rightarrow> ('k, 'v) row \<Rightarrow> 'w \<Rightarrow> (failure + docid shape) \<times> 'w" where
  "fetchKeysFn opts =
     wrapAsync (case fetchKeys opts of None \<Rightarrow> AsyncFn (\<lambda>key w. (Inr Absent, w)) | Some f \<Rightarrow> f)"

text \<open>
  \<open>wrapAsync(options.changes, 2)\<close>. The \<open>changes\<close> callback is required, and \<open>fetchKeys\<close>
  has its default, so \<open>wrapAsync\<close> is never given a missing function.
\<close>

definition changesFn ::
  "('k, 'v, 'd, 'w, 'z) options_scheme \<Rightarrow> ('k, 'v) row \<times> 'd option list option \<Rightarrow> 'w
     \<Rightarrow> (failure + 'd shape) \<times> 'w" where
  "changesFn opts = wrapAsync (changes opts)"

section \<open>The sub-batch pipeline (lines 78--149)\<close>

text \<open>
  \<open>async.mapSeries\<close> and \<open>async.timesSeries\<close>: the iterator is called for one item after
  the other; the first failure ends the series and is the outcome, and the items after
  it are not visited. An error handed to the iterator's callback goes to the final
  callback of the series; an exception of the iterator goes up the stack, since the
  library calls the iterator outside any \<open>try\<close>. \<open>mk\<close> names the call in the trace.
\<close>

fun series ::
  "('a \<Rightarrow> ('k, 'v, 'd) call) \<Rightarrow> ('a \<Rightarrow> 'w \<Rightarrow> (failure + 'r) \<times> 'w) \<Rightarrow> 'a list \<Rightarrow> 'w
     \<Rightarrow> (failure + 'r list) \<times> 'w \<times> ('k, 'v, 'd) event list" where
  "series mk f [] w = (Inr [], w, [])"
| "series mk f (x # xs) w =
     (case f x w of
        (Inl err, w') \<Rightarrow> (Inl err, w', [Called (mk x) (Some err)])
      | (Inr r, w') \<Rightarrow>
          (case series mk f xs w' of
             (Inl err, w'', evs) \<Rightarrow> (Inl err, w'', Called (mk x) None # evs)
           | (Inr rs, w'', evs) \<Rightarrow> (Inr (r # rs), w'', Called (mk x) None # evs)))"

text \<open>
  \<open>_.flatten([keysByRow[i] || []])\<close>: nothing, and the empty string (falsy), give no key;
  one key gives a list of one; an array of keys gives its elements.
\<close>

fun normalizeKeys :: "docid shape \<Rightarrow> docid list" where
  "normalizeKeys Absent = []"
| "normalizeKeys (Single k) = (if k = [] then [] else [k])"
| "normalizeKeys (Several ks) = ks"

text \<open>
  \<open>changes.map(function(c) { return c || []; })\<close> replaces a missing result by \<open>[]\<close>;
  \<open>_.flatten\<close> then splices arrays and keeps a change that is not an array, and
  \<open>_.map(changes, 'length')\<close> reads \<open>undefined\<close> from a change that is not an array.
\<close>

fun orEmpty :: "'d shape \<Rightarrow> 'd shape" where
  "orEmpty Absent = Several []"
| "orEmpty c = c"

fun flattenShape :: "'d shape \<Rightarrow> 'd list" where
  "flattenShape Absent = []"
| "flattenShape (Single c) = [c]"
| "flattenShape (Several cs) = cs"

fun lengthOf :: "'d shape \<Rightarrow> nat option" where
  "lengthOf Absent = None"
| "lengthOf (Single c) = None"
| "lengthOf (Several cs) = Some (length cs)"

text \<open>\<open>_.find(r, {error: 'conflict'})\<close> is truthy when some entry of the group is a conflict.\<close>

definition is_conflict :: "wresult \<Rightarrow> bool" where
  "is_conflict r = (r = Rejected ''conflict'')"

text \<open>
  The loop of \<open>processErrors\<close> (lines 128--133): the rows whose group of results holds a
  conflict, in order. \<open>results\<close> has one group per row (it is \<open>unflatten\<close> of one count per
  row), and a group is an array, so the loop's test \<open>r = results[i]\<close> ends it at the end
  of \<open>results\<close>.
\<close>

definition conflictRows :: "('k, 'v) row list \<Rightarrow> wresult list list \<Rightarrow> ('k, 'v) row list" where
  "conflictRows batch results =
     map fst (filter (\<lambda>(row, r). list_ex is_conflict r) (zip batch results))"

text \<open>
  Lines 89--100: the rows' extra keys are fetched with one call when there are any, and
  the documents are regrouped by row; with no key there is no call and \<open>extraDocs\<close>
  stays \<open>[]\<close>.
\<close>

definition fetchExtraDocs ::
  "('k, 'v, 'd, 'w, 'y) store_scheme \<Rightarrow> ('k, 'v) row list \<Rightarrow> 'w
     \<Rightarrow> (failure + 'd option list list) \<times> 'w \<times> ('k, 'v, 'd) event list" where
  "fetchExtraDocs db batch w =
     (let keys = map extraKeys batch;
          allExtraKeys = concat keys
      in if allExtraKeys \<noteq> [] then
           (case db_fetch db allExtraKeys w of
              (Inl err, w') \<Rightarrow>
                (Inl (Failed err), w', [Called (Fetch allExtraKeys) (Some (Failed err))])
            | (Inr docs, w') \<Rightarrow>
                (Inr (unflatten docs (map (\<lambda>ks. Some (length ks)) keys)), w',
                 [Called (Fetch allExtraKeys) None]))
         else (Inr [], w, []))"

text \<open>\<open>extraDocs[i]\<close>: \<open>undefined\<close> past the end of the array.\<close>

definition docsAt :: "'d option list list \<Rightarrow> nat \<Rightarrow> 'd option list option" where
  "docsAt extraDocs i = (if i < length extraDocs then Some (extraDocs ! i) else None)"

text \<open>
  \<open>runChanges\<close> (lines 105--118): the changes callback for each row in turn, one bulk
  call with all changes, and the answer regrouped by the rows' change counts, which is
  what \<open>processErrors\<close> receives.
\<close>

definition runChanges ::
  "('k, 'v, 'd, 'w, 'y) store_scheme \<Rightarrow> ('k, 'v, 'd, 'w, 'z) options_scheme \<Rightarrow> ('k, 'v) row list
     \<Rightarrow> 'd option list list \<Rightarrow> 'w
     \<Rightarrow> (failure + wresult list list) \<times> 'w \<times> ('k, 'v, 'd) event list" where
  "runChanges db opts batch extraDocs w =
     (case series (\<lambda>(row, docs). ChangesCb row docs) (changesFn opts)
             (map (\<lambda>i. (batch ! i, docsAt extraDocs i)) [0..<length batch]) w of
        (Inl err, w', evs) \<Rightarrow> (Inl err, w', evs)
      | (Inr changes0, w', evs) \<Rightarrow>
          (let changes = map orEmpty changes0;
               allChanges = concat (map flattenShape changes)
           in case db_bulk db allChanges w' of
                (Inl err, w'') \<Rightarrow>
                  (Inl (Failed err), w'', evs @ [Called (Bulk allChanges) (Some (Failed err))])
              | (Inr results, w'') \<Rightarrow>
                  (Inr (unflatten results (map lengthOf changes)), w'',
                   evs @ [Called (Bulk allChanges) None])))"

text \<open>
  \<open>processBatch\<close> with \<open>processErrors\<close> (lines 127--148) inlined: the rows in conflict are
  counted out of the successes; at the ceiling they are reported and the sub-batch is
  done, below it they go through \<open>processBatch\<close> again with \<open>retry + 1\<close>.
\<close>

function processBatch ::
  "('k, 'v, 'd, 'w, 'y) store_scheme \<Rightarrow> ('k, 'v, 'd, 'w, 'z) options_scheme \<Rightarrow> ('k, 'v) row list
     \<Rightarrow> int \<Rightarrow> 'w mstate \<Rightarrow> failure option \<times> 'w mstate \<times> ('k, 'v, 'd) event list" where
  "processBatch db opts batch retry st =
     (case fetchExtraDocs db batch (world st) of
        (Inl err, w1, evs1) \<Rightarrow> (Some err, st\<lparr>world := w1\<rparr>, evs1)
      | (Inr extraDocs, w1, evs1) \<Rightarrow>
          (case runChanges db opts batch extraDocs w1 of
             (Inl err, w2, evs2) \<Rightarrow> (Some err, st\<lparr>world := w2\<rparr>, evs1 @ evs2)
           | (Inr results, w2, evs2) \<Rightarrow>
               (let newBatch = conflictRows batch results;
                    success = int (length batch) - int (length newBatch);
                    st' = st\<lparr>world := w2, realcurrent := realcurrent st + success\<rparr>;
                    evs = evs1 @ evs2 @
                          [ProcessErrors retry batch results, Tick success (realcurrent st')]
                in if newBatch \<noteq> [] then
                     if retry \<ge> retries opts then
                       (None, st', evs @ map (\<lambda>row. ReportFailure row (Err ''Conflict'')) newBatch)
                     else
                       (case processBatch db opts newBatch (retry + 1) st' of
                          (r, st'', evs') \<Rightarrow> (r, st'', evs @ evs'))
                   else (None, st', evs))))"
  by pat_completeness auto
termination
  by (relation "measure (\<lambda>(db, opts, batch, retry, st). nat (retries opts - retry))") auto

text \<open>
  \<open>getExtraKeyInfo\<close> (lines 78--86): the keys callback for each row in turn, the keys
  attached to the rows, then the first attempt.
\<close>

definition getExtraKeyInfo ::
  "('k, 'v, 'd, 'w, 'y) store_scheme \<Rightarrow> ('k, 'v, 'd, 'w, 'z) options_scheme \<Rightarrow> ('k, 'v) row list
     \<Rightarrow> 'w mstate \<Rightarrow> failure option \<times> 'w mstate \<times> ('k, 'v, 'd) event list" where
  "getExtraKeyInfo db opts batch st =
     (case series FetchKeysCb (fetchKeysFn opts) batch (world st) of
        (Inl err, w', evs) \<Rightarrow> (Some err, st\<lparr>world := w'\<rparr>, SubBatch batch # evs)
      | (Inr keysByRow, w', evs) \<Rightarrow>
          (case processBatch db opts
                  (map (\<lambda>(row, keys). row\<lparr>extraKeys := normalizeKeys keys\<rparr>) (zip batch keysByRow))
                  0 (st\<lparr>world := w'\<rparr>) of
             (r, st', evs') \<Rightarrow> (r, st', SubBatch batch # evs @ evs')))"

section \<open>The page handler (lines 37--76)\<close>

text \<open>
  Lines 40--49: \<open>rows.filter\<close> with the user's filter inside \<open>try\<close>; a row whose filter
  throws is reported and left out.
\<close>

fun filterRows ::
  "(('k, 'v) row \<Rightarrow> 'w \<Rightarrow> (error + bool) \<times> 'w) \<Rightarrow> ('k, 'v) row list \<Rightarrow> 'w
     \<Rightarrow> ('k, 'v) row list \<times> 'w \<times> ('k, 'v, 'd) event list" where
  "filterRows f [] w = ([], w, [])"
| "filterRows f (row # rows) w =
     (case f row w of
        (Inl err, w') \<Rightarrow>
          (case filterRows f rows w' of
             (kept, w'', evs) \<Rightarrow>
               (kept, w'', Called (FilterCb row) (Some (Failed err)) # ReportFailure row err # evs))
      | (Inr keep, w') \<Rightarrow>
          (case filterRows f rows w' of
             (kept, w'', evs) \<Rightarrow>
               ((if keep then row # kept else kept), w'', Called (FilterCb row) None # evs)))"

text \<open>
  Lines 51--57: the page's row count is taken off the budget; a budget gone negative
  cuts the page to \<open>rows.slice(0, rows.length + limit)\<close> and is set to 0.
\<close>

definition applyLimit :: "int option \<Rightarrow> 'a list \<Rightarrow> 'a list \<times> int option" where
  "applyLimit lim rows =
     (case lim of
        None \<Rightarrow> (rows, None)
      | Some l \<Rightarrow>
          (let l' = l - int (length rows)
           in if l' < 0 then (js_slice rows 0 (int (length rows) + l'), Some 0)
              else (rows, Some l')))"

text \<open>
  Lines 69--75, \<open>async.whilst\<close>: while \<open>count < rows.length\<close>, the next \<open>batchSize\<close> rows go
  through \<open>getExtraKeyInfo\<close>; a failure ends the loop.
\<close>

function subBatches ::
  "('k, 'v, 'd, 'w, 'y) store_scheme \<Rightarrow> ('k, 'v, 'd, 'w, 'z) options_scheme \<Rightarrow> ('k, 'v) row list
     \<Rightarrow> nat \<Rightarrow> 'w mstate \<Rightarrow> failure option \<times> 'w mstate \<times> ('k, 'v, 'd) event list" where
  "subBatches db opts rows count st =
     (if count < length rows then
        (case getExtraKeyInfo db opts (take (batchSizeOf opts) (drop count rows)) st of
           (Some err, st', evs) \<Rightarrow> (Some err, st', evs)
         | (None, st', evs) \<Rightarrow>
             (case subBatches db opts rows (count + batchSizeOf opts) st' of
                (r, st'', evs') \<Rightarrow> (r, st'', evs @ evs')))
      else (None, st, []))"
  by pat_completeness auto
termination
  by (relation "measure (\<lambda>(db, opts, rows, count, st). length rows - count)")
     (auto simp: batchSizeOf_def split: option.splits)

text \<open>
  What the batch handler does with its callback \<open>nextBatch\<close>: it calls it, with an error
  or without, or it never calls it: it called \<open>complete\<close> itself, or an exception went
  through it.
\<close>

datatype handled = CallNext "error option" | NoCallback | Escaped error

text \<open>
  The handler of one page. The last argument of \<open>async.whilst\<close> is
  \<open>limit === 0 ? complete : nextBatch\<close>, chosen before the loop runs; it is called
  with the loop's error or with nothing, and it is not called when an exception ends the
  loop. An empty page returns \<open>nextBatch()\<close> before that.
\<close>

definition batchHandler ::
  "('k, 'v, 'd, 'w, 'y) store_scheme \<Rightarrow> ('k, 'v, 'd, 'w, 'z) options_scheme \<Rightarrow> ('k, 'v) row list
     \<Rightarrow> 'w mstate \<Rightarrow> handled \<times> 'w mstate \<times> ('k, 'v, 'd) event list" where
  "batchHandler db opts rows0 st0 =
     (let st1 = st0\<lparr>batch_no := batch_no st0 + 1\<rparr>
      in case (case sourceFilter opts of
                 None \<Rightarrow> (rows0, world st1, [])
               | Some f \<Rightarrow> filterRows f rows0 (world st1)) of
           (rows1, w, evs1) \<Rightarrow>
             (case applyLimit (limit_left st1) rows1 of
                (rows, lim) \<Rightarrow>
                  (let st2 = st1\<lparr>world := w, limit_left := lim\<rparr>
                   in if rows = [] then (CallNext None, st2, evs1)
                      else
                        (case subBatches db opts rows 0 st2 of
                           (r, st3, evs2) \<Rightarrow>
                             (let evs = evs1 @ Tick 0 (realcurrent st2) # evs2;
                                  final = (\<lambda>err. if lim = Some 0
                                             then (NoCallback, st3, evs @ [Complete err])
                                             else (CallNext err, st3, evs))
                              in case r of
                                   None \<Rightarrow> final None
                                 | Some (Failed err) \<Rightarrow> final (Some err)
                                 | Some (Threw err) \<Rightarrow> (Escaped err, st3, evs))))))"

section \<open>The view scanner (lines 200--223)\<close>

text \<open>
  How a run ended: it called \<open>complete\<close>; or the model's fuel, one unit per page request,
  ran out with the scan still going; or an exception left the program, which then never
  calls \<open>complete\<close>.
\<close>

datatype ending = Finished | OutOfFuel | Crashed error

text \<open>\<open>if (next.id)\<close>: an id that is missing or the empty string is falsy.\<close>

definition truthy_id :: "docid option \<Rightarrow> bool" where
  "truthy_id i = (case i of None \<Rightarrow> False | Some s \<Rightarrow> s \<noteq> [])"

text \<open>Lines 212--215: the cursor is written into the parameters object.\<close>

definition advance :: "'k params \<Rightarrow> ('k, 'v) row \<Rightarrow> 'k params" where
  "advance ps next =
     (let ps' = ps\<lparr>startkey := Some (row_key next)\<rparr>
      in if truthy_id (row_id next) then ps'\<lparr>startkey_docid := row_id next\<rparr> else ps')"

text \<open>
  The inner function \<open>nextBatch\<close> of \<open>getViewInBatches\<close>: one query, the first \<open>batchSize\<close>
  rows to the handler, and when the handler calls back without an error, the row at
  index \<open>batchSize\<close> (if any) is the next cursor. \<open>cb\<close> is the program's \<open>complete\<close>, the
  event \<open>Complete\<close>.
\<close>

fun nextBatch ::
  "nat \<Rightarrow> ('k, 'v, 'd, 'w, 'y) store_scheme \<Rightarrow> nat
     \<Rightarrow> (('k, 'v) row list \<Rightarrow> 'w mstate \<Rightarrow> handled \<times> 'w mstate \<times> ('k, 'v, 'd) event list)
     \<Rightarrow> 'k params \<Rightarrow> 'w mstate \<Rightarrow> ending \<times> 'w mstate \<times> ('k, 'v, 'd) event list" where
  "nextBatch 0 db pageSize handler ps st = (OutOfFuel, st, [])"
| "nextBatch (Suc fuel) db pageSize handler ps st =
     (case db_view db ps (world st) of
        (Inl err, w) \<Rightarrow>
          (Finished, st\<lparr>world := w\<rparr>,
           [Called (View ps) (Some (Failed err)), Complete (Some err)])
      | (Inr body_rows, w) \<Rightarrow>
          (case handler (take pageSize body_rows) (st\<lparr>world := w\<rparr>) of
             (NoCallback, st', evs) \<Rightarrow>
               (Finished, st',
                Called (View ps) None # PageHandler (take pageSize body_rows) # evs)
           | (Escaped err, st', evs) \<Rightarrow>
               (Crashed err, st',
                Called (View ps) None # PageHandler (take pageSize body_rows) # evs)
           | (CallNext (Some err), st', evs) \<Rightarrow>
               (Finished, st',
                Called (View ps) None # PageHandler (take pageSize body_rows) # evs
                  @ [Complete (Some err)])
           | (CallNext None, st', evs) \<Rightarrow>
               (if pageSize < length body_rows then
                  (case nextBatch fuel db pageSize handler
                          (advance ps (body_rows ! pageSize)) st' of
                     (r, st'', evs') \<Rightarrow>
                       (r, st'',
                        Called (View ps) None # PageHandler (take pageSize body_rows) # evs
                          @ evs'))
                else
                  (Finished, st',
                   Called (View ps) None # PageHandler (take pageSize body_rows) # evs
                     @ [Complete None]))))"

text \<open>\<open>getViewInBatches\<close>: \<open>params.limit = batchSize + 1\<close>, then the first request.\<close>

definition getViewInBatches ::
  "nat \<Rightarrow> ('k, 'v, 'd, 'w, 'y) store_scheme \<Rightarrow> 'k params \<Rightarrow> nat
     \<Rightarrow> (('k, 'v) row list \<Rightarrow> 'w mstate \<Rightarrow> handled \<times> 'w mstate \<times> ('k, 'v, 'd) event list)
     \<Rightarrow> 'w mstate \<Rightarrow> ending \<times> 'w mstate \<times> ('k, 'v, 'd) event list" where
  "getViewInBatches fuel db ps pageSize handler st =
     nextBatch fuel db pageSize handler (ps\<lparr>limit := Some (pageSize + 1)\<rparr>) st"

section \<open>The exported function (lines 23--76)\<close>

definition emptyParams :: "'k params" where
  "emptyParams = \<lparr>limit = None, startkey = None, startkey_docid = None\<rparr>"

definition initialState :: "('k, 'v, 'd, 'w, 'z) options_scheme \<Rightarrow> 'w \<Rightarrow> 'w mstate" where
  "initialState opts w = \<lparr>world = w, limit_left = row_limit opts, realcurrent = 0, batch_no = 0\<rparr>"

text \<open>
  \<open>module.exports(options)\<close> with \<open>options.database = db\<close>, started in the world \<open>w\<close>, with
  \<open>fuel\<close> page requests at most. The view is read 1000 rows at a time.
\<close>

definition migrate ::
  "nat \<Rightarrow> ('k, 'v, 'd, 'w, 'y) store_scheme \<Rightarrow> ('k, 'v, 'd, 'w, 'z) options_scheme \<Rightarrow> 'w
     \<Rightarrow> ending \<times> 'w mstate \<times> ('k, 'v, 'd) event list" where
  "migrate fuel db opts w =
     getViewInBatches fuel db (case sourceParams opts of None \<Rightarrow> emptyParams | Some ps \<Rightarrow> ps)
       1000 (batchHandler db opts) (initialState opts w)"

section \<open>Reading a trace\<close>

text \<open>
  The attempts of a sub-batch are the entries of \<open>processErrors\<close> in its trace: the attempt
  number \<open>retry\<close>, the rows of the attempt and their groups of write results.
\<close>

fun attemptOf ::
  "('k, 'v, 'd) event \<Rightarrow> (int \<times> ('k, 'v) row list \<times> wresult list list) list" where
  "attemptOf (ProcessErrors n b rs) = [(n, b, rs)]"
| "attemptOf _ = []"

definition attempts ::
  "('k, 'v, 'd) event list \<Rightarrow> (int \<times> ('k, 'v) row list \<times> wresult list list) list" where
  "attempts evs = concat (map attemptOf evs)"

text \<open>The success counts handed to \<open>progress.tick\<close>, in order.\<close>

fun tickOf :: "('k, 'v, 'd) event \<Rightarrow> int list" where
  "tickOf (Tick s t) = [s]"
| "tickOf _ = []"

definition ticks :: "('k, 'v, 'd) event list \<Rightarrow> int list" where
  "ticks evs = concat (map tickOf evs)"

text \<open>The rows handed to \<open>reportFailure\<close>, each with its error, in order.\<close>

fun failureOf :: "('k, 'v, 'd) event \<Rightarrow> (('k, 'v) row \<times> error) list" where
  "failureOf (ReportFailure row e) = [(row, e)]"
| "failureOf _ = []"

definition failures :: "('k, 'v, 'd) event list \<Rightarrow> (('k, 'v) row \<times> error) list" where
  "failures evs = concat (map failureOf evs)"

text \<open>The rows of an attempt, those in conflict (the retry-needed set) and the others.\<close>

fun batch_of :: "int \<times> ('k, 'v) row list \<times> wresult list list \<Rightarrow> ('k, 'v) row list" where
  "batch_of (n, b, rs) = b"

fun conflicts_of :: "int \<times> ('k, 'v) row list \<times> wresult list list \<Rightarrow> ('k, 'v) row list" where
  "conflicts_of (n, b, rs) = conflictRows b rs"

fun successes_of :: "int \<times> ('k, 'v) row list \<times> wresult list list \<Rightarrow> ('k, 'v) row list" where
  "successes_of (n, b, rs) = filter (\<lambda>row. row \<notin> set (conflictRows b rs)) b"

fun tick_of :: "int \<times> ('k, 'v) row list \<times> wresult list list \<Rightarrow> int" where
  "tick_of (n, b, rs) = int (length b) - int (length (conflictRows b rs))"

text \<open>
  The write results of a row in an attempt: the group of results that \<open>processErrors\<close>
  was handed at the row's place. The row was in conflict when the group holds a
  conflict, and it was written when it has a group and the group holds none.
\<close>

fun results_for ::
  "('k, 'v) row \<Rightarrow> int \<times> ('k, 'v) row list \<times> wresult list list \<Rightarrow> wresult list option" where
  "results_for r (n, b, rs) = map_of (zip b rs) r"

definition conflicted :: "('k, 'v) row \<Rightarrow> int \<times> ('k, 'v) row list \<times> wresult list list \<Rightarrow> bool" where
  "conflicted r a =
     (case results_for r a of None \<Rightarrow> False | Some g \<Rightarrow> Rejected ''conflict'' \<in> set g)"

definition written :: "('k, 'v) row \<Rightarrow> int \<times> ('k, 'v) row list \<times> wresult list list \<Rightarrow> bool" where
  "written r a =
     (case results_for r a of None \<Rightarrow> False | Some g \<Rightarrow> Rejected ''conflict'' \<notin> set g)"

text \<open>
  The value of \<open>progressTokens.realcurrent\<close> shown with each tick, in order, and the
  running sums of a list of counts from a start value.
\<close>

fun counterOf :: "('k, 'v, 'd) event \<Rightarrow> int list" where
  "counterOf (Tick s t) = [t]"
| "counterOf _ = []"

definition counters :: "('k, 'v, 'd) event list \<Rightarrow> int list" where
  "counters evs = concat (map counterOf evs)"

fun running :: "int \<Rightarrow> int list \<Rightarrow> int list" where
  "running c [] = []"
| "running c (x # xs) = (c + x) # running (c + x) xs"

text \<open>The retry-needed set of the last attempt.\<close>

fun final_conflicts ::
  "(int \<times> ('k, 'v) row list \<times> wresult list list) list \<Rightarrow> ('k, 'v) row list" where
  "final_conflicts [] = []"
| "final_conflicts [(n, b, rs)] = conflictRows b rs"
| "final_conflicts (a # as) = final_conflicts as"

text \<open>
  A call whose failure ends the sub-batch it is made in; the filter's does not, it is
  caught in place.
\<close>

fun fatal :: "('k, 'v, 'd) call \<Rightarrow> bool" where
  "fatal (FilterCb row) = False"
| "fatal _ = True"

fun isCalled :: "('k, 'v, 'd) event \<Rightarrow> bool" where
  "isCalled (Called c r) = True"
| "isCalled _ = False"

fun failedFatal :: "('k, 'v, 'd) event \<Rightarrow> bool" where
  "failedFatal (Called c (Some e)) = fatal c"
| "failedFatal _ = False"

text \<open>A trace with no failed call but the filter's, and one that ends at the first.\<close>

definition clean :: "('k, 'v, 'd) event list \<Rightarrow> bool" where
  "clean evs = list_all (\<lambda>ev. \<not> failedFatal ev) evs"

definition aborted :: "failure \<Rightarrow> ('k, 'v, 'd) event list \<Rightarrow> bool" where
  "aborted e evs = (\<exists>pre c. evs = pre @ [Called c (Some e)] \<and> fatal c \<and> clean pre)"

text \<open>
  One attempt without its bookkeeping: the fetch and \<open>runChanges\<close>, as \<open>processBatch\<close>
  runs them before \<open>processErrors\<close>.
\<close>

definition attempt ::
  "('k, 'v, 'd, 'w, 'y) store_scheme \<Rightarrow> ('k, 'v, 'd, 'w, 'z) options_scheme \<Rightarrow> ('k, 'v) row list
     \<Rightarrow> 'w \<Rightarrow> (failure + wresult list list) \<times> 'w \<times> ('k, 'v, 'd) event list" where
  "attempt db opts batch w =
     (case fetchExtraDocs db batch w of
        (Inl err, w1, evs1) \<Rightarrow> (Inl err, w1, evs1)
      | (Inr extraDocs, w1, evs1) \<Rightarrow>
          (case runChanges db opts batch extraDocs w1 of
             (r, w2, evs2) \<Rightarrow> (r, w2, evs1 @ evs2)))"

text \<open>
  The shape of the attempts of one sub-batch: they are numbered from \<open>retry\<close> on, each
  works on the retry-needed set of the one before, and the sequence goes on exactly
  while that set is not empty and the number is below the ceiling \<open>R\<close>. \<open>ab\<close> says that
  the sequence was cut short by a fatal error.
\<close>

fun retry_chain ::
  "bool \<Rightarrow> int \<Rightarrow> int \<Rightarrow> ('k, 'v) row list
     \<Rightarrow> (int \<times> ('k, 'v) row list \<times> wresult list list) list \<Rightarrow> bool" where
  "retry_chain ab R retry batch [] = ab"
| "retry_chain ab R retry batch ((n, b, rs) # rest) =
     (n = retry \<and> b = batch \<and>
      (if conflictRows b rs = [] \<or> R \<le> retry then rest = [] \<and> \<not> ab
       else retry_chain ab R (retry + 1) (conflictRows b rs) rest))"

text \<open>A callback result that is one value outside an array.\<close>

fun isSingle :: "'a shape \<Rightarrow> bool" where
  "isSingle (Single c) = True"
| "isSingle _ = False"

text \<open>A call of the keys callback \<open>fetchKeysFn\<close> (the user's \<open>fetchKeys\<close> or the default).\<close>

fun isKeysCall :: "('k, 'v, 'd) event \<Rightarrow> bool" where
  "isKeysCall (Called (FetchKeysCb row) r) = True"
| "isKeysCall _ = False"

text \<open>
  An event of the sub-batch pipeline: not a call of the filter, and a reported failure
  only for a conflict.
\<close>

fun afterFilter :: "('k, 'v, 'd) event \<Rightarrow> bool" where
  "afterFilter (Called (FilterCb row) out) = False"
| "afterFilter (ReportFailure row e) = (e = Err ''Conflict'')"
| "afterFilter _ = True"

text \<open>
  The answers of the user's filter for the rows of a page: it is called for each row in
  turn, each call in the world the call before left. \<open>Inl e\<close> is a thrown error.
\<close>

fun verdicts ::
  "(('k, 'v) row \<Rightarrow> 'w \<Rightarrow> (error + bool) \<times> 'w) \<Rightarrow> ('k, 'v) row list \<Rightarrow> 'w \<Rightarrow> (error + bool) list" where
  "verdicts f [] w = []"
| "verdicts f (row # rows) w = (case f row w of (v, w') \<Rightarrow> v # verdicts f rows w')"

text \<open>The calls of a trace with their outcomes, in order.\<close>

fun callOf :: "('k, 'v, 'd) event \<Rightarrow> (('k, 'v, 'd) call \<times> failure option) list" where
  "callOf (Called c out) = [(c, out)]"
| "callOf _ = []"

definition calls :: "('k, 'v, 'd) event list \<Rightarrow> (('k, 'v, 'd) call \<times> failure option) list" where
  "calls evs = concat (map callOf evs)"

fun thrown :: "error + bool \<Rightarrow> failure option" where
  "thrown (Inl e) = Some (Failed e)"
| "thrown (Inr b) = None"

text \<open>
  A trace in which \<open>complete\<close> has not been called, one that has run to an outcome \<open>res\<close>
  without it (clean when there is no failure, ending at the failed call otherwise), and
  one that ends with the one call of \<open>complete\<close>, which carries that outcome.
\<close>

fun isComplete :: "('k, 'v, 'd) event \<Rightarrow> bool" where
  "isComplete (Complete r) = True"
| "isComplete _ = False"

definition noComplete :: "('k, 'v, 'd) event list \<Rightarrow> bool" where
  "noComplete evs = list_all (\<lambda>ev. \<not> isComplete ev) evs"

definition ended :: "failure option \<Rightarrow> ('k, 'v, 'd) event list \<Rightarrow> bool" where
  "ended res evs = (noComplete evs \<and> (case res of None \<Rightarrow> clean evs | Some e \<Rightarrow> aborted e evs))"

definition finished_trace :: "('k, 'v, 'd) event list \<Rightarrow> bool" where
  "finished_trace evs = (\<exists>pre r. evs = pre @ [Complete r] \<and> ended (map_option Failed r) pre)"

text \<open>
  What the scanner needs of a batch handler: when it calls back, its trace has run to
  the outcome it calls back with; when it does not, it has called \<open>complete\<close> itself, or
  its trace ends at the call that threw.
\<close>

definition handler_ok ::
  "(('k, 'v) row list \<Rightarrow> 'w mstate \<Rightarrow> handled \<times> 'w mstate \<times> ('k, 'v, 'd) event list) \<Rightarrow> bool" where
  "handler_ok handler = (\<forall>rows st h st' evs. handler rows st = (h, st', evs) \<longrightarrow>
      (case h of
         CallNext r \<Rightarrow> ended (map_option Failed r) evs
       | NoCallback \<Rightarrow> finished_trace evs
       | Escaped e \<Rightarrow> ended (Some (Threw e)) evs))"

text \<open>
  An event that is not a multi-get and not a call of the changes callback with a
  document group.
\<close>

fun noDocs :: "('k, 'v, 'd) event \<Rightarrow> bool" where
  "noDocs (Called (Fetch ks) out) = False"
| "noDocs (Called (ChangesCb row docs) out) = (docs = None)"
| "noDocs _ = True"

section \<open>The store's view, as the scanner expects it\<close>

text \<open>
  The store is outside the program. For the claims about paging, a view is a list of
  rows in view order, and a query answers as CouchDB does (section 6 of the
  specification: \<open>params.limit\<close> and \<open>params.startkey\<close>/\<open>params.startkey_docid\<close> control
  paging): the rows at or after the start key, where \<open>startkey_docid\<close> breaks ties among
  rows with that key, cut to \<open>limit\<close> rows. \<open>serves rows db\<close> says that the store answers
  every query from the fixed list \<open>rows\<close>.
\<close>

definition at_or_after :: "('k::linorder) params \<Rightarrow> ('k, 'v) row \<Rightarrow> bool" where
  "at_or_after ps r =
     (case startkey ps of
        None \<Rightarrow> True
      | Some k \<Rightarrow>
          k < row_key r \<or>
          (row_key r = k \<and>
           (case (startkey_docid ps, row_id r) of (Some d, Some i) \<Rightarrow> d \<le> i | _ \<Rightarrow> True)))"

definition couch_view :: "('k::linorder, 'v) row list \<Rightarrow> 'k params \<Rightarrow> ('k, 'v) row list" where
  "couch_view rows ps =
     (case limit ps of
        None \<Rightarrow> filter (at_or_after ps) rows
      | Some n \<Rightarrow> take n (filter (at_or_after ps) rows))"

definition serves :: "('k::linorder, 'v) row list \<Rightarrow> ('k, 'v, 'd, 'w, 'y) store_scheme \<Rightarrow> bool" where
  "serves rows db = (\<forall>ps w. db_view db ps w = (Inr (couch_view rows ps), w))"

text \<open>
  View order: rows are strictly ordered by key and, among rows with one key, by
  document id; no id is the empty string.
\<close>

definition cursor_less :: "('k::linorder, 'v) row \<Rightarrow> ('k, 'v) row \<Rightarrow> bool" where
  "cursor_less r s =
     (row_key r < row_key s \<or>
      (row_key r = row_key s \<and>
       (case (row_id r, row_id s) of (Some i, Some j) \<Rightarrow> i < j | _ \<Rightarrow> False)))"

definition view_order :: "('k::linorder, 'v) row list \<Rightarrow> bool" where
  "view_order rows = (sorted_wrt cursor_less rows \<and> list_all (\<lambda>r. row_id r \<noteq> Some []) rows)"

text \<open>The view queries of a trace with their outcomes, and the pages handed to the handler.\<close>

fun viewOf :: "('k, 'v, 'd) event \<Rightarrow> ('k params \<times> failure option) list" where
  "viewOf (Called (View ps) out) = [(ps, out)]"
| "viewOf _ = []"

definition views :: "('k, 'v, 'd) event list \<Rightarrow> ('k params \<times> failure option) list" where
  "views evs = concat (map viewOf evs)"

fun pageOf :: "('k, 'v, 'd) event \<Rightarrow> ('k, 'v) row list list" where
  "pageOf (PageHandler rows) = [rows]"
| "pageOf _ = []"

definition pages :: "('k, 'v, 'd) event list \<Rightarrow> ('k, 'v) row list list" where
  "pages evs = concat (map pageOf evs)"

text \<open>The events of the scanner itself: its queries, its calls of the handler, \<open>complete\<close>.\<close>

fun isScan :: "('k, 'v, 'd) event \<Rightarrow> bool" where
  "isScan (Called (View ps) out) = True"
| "isScan (PageHandler rows) = True"
| "isScan (Complete r) = True"
| "isScan _ = False"

text \<open>
  A handler that, from a state in \<open>I\<close>, always calls back without an error, stays in \<open>I\<close>,
  and whose own events are none of the scanner's and all in \<open>Q\<close>.
\<close>

definition quiet_on ::
  "('w mstate \<Rightarrow> bool) \<Rightarrow> (('k, 'v, 'd) event \<Rightarrow> bool)
     \<Rightarrow> (('k, 'v) row list \<Rightarrow> 'w mstate \<Rightarrow> handled \<times> 'w mstate \<times> ('k, 'v, 'd) event list) \<Rightarrow> bool" where
  "quiet_on I Q handler =
     (\<forall>rows st. I st \<longrightarrow>
        (case handler rows st of
           (h, st', evs) \<Rightarrow>
             h = CallNext None \<and> list_all (\<lambda>ev. \<not> isScan ev \<and> Q ev) evs \<and> I st'))"

definition quiet ::
  "(('k, 'v) row list \<Rightarrow> 'w mstate \<Rightarrow> handled \<times> 'w mstate \<times> ('k, 'v, 'd) event list) \<Rightarrow> bool" where
  "quiet handler = quiet_on (\<lambda>st. True) (\<lambda>ev. True) handler"

text \<open>The rows that entered the sub-batch pipeline (\<open>getExtraKeyInfo\<close>), in order.\<close>

fun subBatchOf :: "('k, 'v, 'd) event \<Rightarrow> ('k, 'v) row list list" where
  "subBatchOf (SubBatch b) = [b]"
| "subBatchOf _ = []"

definition piped :: "('k, 'v, 'd) event list \<Rightarrow> ('k, 'v) row list" where
  "piped evs = concat (concat (map subBatchOf evs))"

section \<open>A store and callbacks that keep a log\<close>

text \<open>
  The trace is written by the program. To speak of the calls that leave the program
  without relying on it, the store and the user's functions can be made to keep a log
  themselves: the world becomes the world with a log, and every store operation and
  every user function appends its own call, with its own answer, before it answers.
  \<open>answered\<close> reads the answer of a store operation and of a synchronous function,
  \<open>replied\<close> that of an asynchronous one.
\<close>

type_synonym ('k, 'v, 'd) log = "(('k, 'v, 'd) call \<times> failure option) list"

fun answered :: "error + 'a \<Rightarrow> failure option" where
  "answered (Inl e) = Some (Failed e)"
| "answered (Inr x) = None"

fun replied :: "failure + 'a \<Rightarrow> failure option" where
  "replied (Inl f) = Some f"
| "replied (Inr x) = None"

definition noting ::
  "('a \<Rightarrow> ('k, 'v, 'd) call) \<Rightarrow> ('r \<Rightarrow> failure option) \<Rightarrow> ('a \<Rightarrow> 'w \<Rightarrow> 'r \<times> 'w)
     \<Rightarrow> 'a \<Rightarrow> 'w \<times> ('k, 'v, 'd) log \<Rightarrow> 'r \<times> ('w \<times> ('k, 'v, 'd) log)" where
  "noting mk out f a wl =
     (case f a (fst wl) of (r, w') \<Rightarrow> (r, (w', snd wl @ [(mk a, out r)])))"

definition recording ::
  "('k, 'v, 'd, 'w, 'y) store_scheme \<Rightarrow> ('k, 'v, 'd, 'w \<times> ('k, 'v, 'd) log) store" where
  "recording db =
     \<lparr>db_view = noting View answered (db_view db),
      db_fetch = noting Fetch answered (db_fetch db),
      db_bulk = noting Bulk answered (db_bulk db)\<rparr>"

fun recording_cb ::
  "('a \<Rightarrow> ('k, 'v, 'd) call) \<Rightarrow> ('a, 'r, 'w) callback
     \<Rightarrow> ('a, 'r, 'w \<times> ('k, 'v, 'd) log) callback" where
  "recording_cb mk (SyncFn f) = SyncFn (noting mk answered f)"
| "recording_cb mk (AsyncFn f) = AsyncFn (noting mk replied f)"

text \<open>
  The options with every user function keeping the log. Where \<open>fetchKeys\<close> is missing,
  the program's default function stands in for it, so that the log has every call that
  the trace has.
\<close>

definition recording_opts ::
  "('k, 'v, 'd, 'w, 'z) options_scheme \<Rightarrow> ('k, 'v, 'd, 'w \<times> ('k, 'v, 'd) log) options" where
  "recording_opts opts =
     \<lparr>sourceParams = sourceParams opts, batchSize = batchSize opts, row_limit = row_limit opts,
      fetchKeys = Some (recording_cb FetchKeysCb
        (case fetchKeys opts of None \<Rightarrow> AsyncFn (\<lambda>key w. (Inr Absent, w)) | Some f \<Rightarrow> f)),
      changes = recording_cb (\<lambda>(row, docs). ChangesCb row docs) (changes opts),
      sourceFilter = map_option (noting FilterCb answered) (sourceFilter opts),
      retryConflicts = retryConflicts opts\<rparr>"

text \<open>A state with the log added to its world, and taken out of it.\<close>

definition with_log :: "'w mstate \<Rightarrow> ('k, 'v, 'd) log \<Rightarrow> ('w \<times> ('k, 'v, 'd) log) mstate" where
  "with_log st log =
     \<lparr>world = (world st, log), limit_left = limit_left st, realcurrent = realcurrent st,
      batch_no = batch_no st\<rparr>"

definition without_log :: "('w \<times> ('k, 'v, 'd) log) mstate \<Rightarrow> 'w mstate" where
  "without_log st =
     \<lparr>world = fst (world st), limit_left = limit_left st, realcurrent = realcurrent st,
      batch_no = batch_no st\<rparr>"

section \<open>Example stores and options\<close>

text \<open>Two rows of a view, before and after \<open>getExtraKeyInfo\<close> has attached their keys.\<close>

definition row_a :: "(nat, unit) row" where
  "row_a = \<lparr>row_key = 1, row_id = Some ''a'', row_value = (), extraKeys = []\<rparr>"

definition row_b :: "(nat, unit) row" where
  "row_b = \<lparr>row_key = 2, row_id = Some ''b'', row_value = (), extraKeys = []\<rparr>"

definition keyed_a :: "(nat, unit) row" where
  "keyed_a = row_a\<lparr>extraKeys := [''a'']\<rparr>"

definition keyed_b :: "(nat, unit) row" where
  "keyed_b = row_b\<lparr>extraKeys := [''b'']\<rparr>"

text \<open>
  A store whose world is the number of bulk calls made so far. A document is an id with
  a revision; a fetch returns each key at the current revision, and a write of document
  \<open>b\<close> conflicts in the first \<open>c\<close> bulk calls.
\<close>

definition flaky_db :: "nat \<Rightarrow> (nat, unit, docid \<times> nat, nat) store" where
  "flaky_db c =
     \<lparr>db_view = (\<lambda>ps w. (Inr [row_a, row_b], w)),
      db_fetch = (\<lambda>keys w. (Inr (map (\<lambda>k. Some (k, w)) keys), w)),
      db_bulk = (\<lambda>docs w.
        (Inr (map (\<lambda>d. if fst d = ''b'' \<and> w < c then Rejected ''conflict'' else Written) docs),
         w + 1))\<rparr>"

text \<open>Options whose callbacks fetch the row's own document and write it back.\<close>

definition own_doc_opts :: "retry_option \<Rightarrow> (nat, unit, docid \<times> nat, nat) options" where
  "own_doc_opts rc =
     \<lparr>sourceParams = None, batchSize = None, row_limit = None,
      fetchKeys = Some (SyncFn (\<lambda>row w.
        (Inr (case row_id row of None \<Rightarrow> Absent | Some i \<Rightarrow> Single i), w))),
      changes = SyncFn (\<lambda>(row, docs) w.
        (Inr (case docs of None \<Rightarrow> Absent | Some ds \<Rightarrow> Several (List.map_filter id ds)), w)),
      sourceFilter = None,
      retryConflicts = rc\<rparr>"

text \<open>
  Options with no \<open>fetchKeys\<close>, whose \<open>changes\<close> returns one change, not in an array, for
  the row with key 1 and an array of one change for any other row.
\<close>

definition single_change_opts :: "(nat, unit, docid \<times> nat, nat) options" where
  "single_change_opts =
     \<lparr>sourceParams = None, batchSize = None, row_limit = None,
      fetchKeys = None,
      changes = SyncFn (\<lambda>(row, docs) w.
        (Inr (if row_key row = 1 then Single (''a'', 0) else Several [(''b'', 0)]), w)),
      sourceFilter = None,
      retryConflicts = RetryAbsent\<rparr>"

definition start :: "nat mstate" where
  "start = \<lparr>world = 0, limit_left = None, realcurrent = 0, batch_no = 0\<rparr>"

text \<open>A filter that throws for the row with key 1 and accepts every other row.\<close>

definition picky_filter :: "(nat, unit) row \<Rightarrow> nat \<Rightarrow> (error + bool) \<times> nat" where
  "picky_filter row w = (if row_key row = 1 then Inl (Err ''boom'') else Inr True, w)"

definition filtered_opts :: "(nat, unit, docid \<times> nat, nat) options" where
  "filtered_opts = (own_doc_opts RetryAbsent)\<lparr>sourceFilter := Some picky_filter\<rparr>"

text \<open>A store whose bulk call fails with a transport error.\<close>

definition broken_db :: "(nat, unit, docid \<times> nat, nat) store" where
  "broken_db =
     \<lparr>db_view = (\<lambda>ps w. (Inr [row_a, row_b], w)),
      db_fetch = (\<lambda>keys w. (Inr (map (\<lambda>k. Some (k, w)) keys), w)),
      db_bulk = (\<lambda>docs w. (Inl (Err ''down''), w))\<rparr>"

text \<open>Options with no \<open>fetchKeys\<close>, whose \<open>changes\<close> writes one document per row.\<close>

definition no_keys_opts :: "(nat, unit, docid \<times> nat, nat) options" where
  "no_keys_opts =
     \<lparr>sourceParams = None, batchSize = None, row_limit = None,
      fetchKeys = None,
      changes = SyncFn (\<lambda>(row, docs) w.
        (Inr (Several [(case row_id row of None \<Rightarrow> ''?'' | Some i \<Rightarrow> i, 0)]), w)),
      sourceFilter = None,
      retryConflicts = RetryAbsent\<rparr>"

text \<open>
  Options with no \<open>fetchKeys\<close>, whose \<open>changes\<close> declares the callback parameter
  (\<open>function(row, docs, cb)\<close>) and throws for the row with key 2.
\<close>

definition throwing_opts :: "(nat, unit, docid \<times> nat, nat) options" where
  "throwing_opts =
     \<lparr>sourceParams = None, batchSize = None, row_limit = None,
      fetchKeys = None,
      changes = AsyncFn (\<lambda>(row, docs) w.
        (if row_key row = 2 then Inl (Threw (Err ''bug'')) else Inr (Several [(''a'', 0)]), w)),
      sourceFilter = None,
      retryConflicts = RetryAbsent\<rparr>"

text \<open>
  The same options with a \<open>fetchKeys\<close> that returns the row's own id for the row with key
  2 and nothing for any other row.
\<close>

definition b_key_opts :: "(nat, unit, docid \<times> nat, nat) options" where
  "b_key_opts = no_keys_opts\<lparr>fetchKeys := Some (SyncFn (\<lambda>row w.
     (Inr (if row_key row = 2 then (case row_id row of None \<Rightarrow> Absent | Some i \<Rightarrow> Single i)
           else Absent), w)))\<rparr>"

text \<open>
  A view of rows with the keys 0, 1, 2, ... and no ids, a store that serves a given list
  of rows and accepts every write, a handler that only counts the rows of a page, and
  options with the row budget 0.
\<close>

definition numbered_row :: "nat \<Rightarrow> (nat, unit) row" where
  "numbered_row i = \<lparr>row_key = i, row_id = None, row_value = (), extraKeys = []\<rparr>"

definition view_db :: "(nat, unit) row list \<Rightarrow> (nat, unit, docid \<times> nat, nat) store" where
  "view_db rows =
     \<lparr>db_view = (\<lambda>ps w. (Inr (couch_view rows ps), w)),
      db_fetch = (\<lambda>keys w. (Inr (map (\<lambda>k. Some (k, w)) keys), w)),
      db_bulk = (\<lambda>docs w. (Inr (map (\<lambda>d. Written) docs), w + 1))\<rparr>"

definition page_counter ::
  "(nat, unit) row list \<Rightarrow> nat mstate \<Rightarrow> handled \<times> nat mstate \<times> (nat, unit, docid \<times> nat) event list" where
  "page_counter rows st =
     (CallNext None, st\<lparr>realcurrent := realcurrent st + int (length rows)\<rparr>,
      [Tick (int (length rows)) (realcurrent st + int (length rows))])"

definition zero_limit_opts :: "(nat, unit, docid \<times> nat, nat) options" where
  "zero_limit_opts = no_keys_opts\<lparr>row_limit := Some 0\<rparr>"

section \<open>The attempts of a sub-batch\<close>

declare processBatch.simps [simp del]
declare subBatches.simps [simp del]

lemma processBatch_unfold:
  "processBatch db opts batch retry st =
     (case attempt db opts batch (world st) of
        (Inl err, w, evs) \<Rightarrow> (Some err, st\<lparr>world := w\<rparr>, evs)
      | (Inr results, w, evs) \<Rightarrow>
          (let newBatch = conflictRows batch results;
               success = int (length batch) - int (length newBatch);
               st' = st\<lparr>world := w, realcurrent := realcurrent st + success\<rparr>;
               evs' = evs @ [ProcessErrors retry batch results, Tick success (realcurrent st')]
           in if newBatch = [] then (None, st', evs')
              else if retry \<ge> retries opts then
                (None, st', evs' @ map (\<lambda>row. ReportFailure row (Err ''Conflict'')) newBatch)
              else
                (case processBatch db opts newBatch (retry + 1) st' of
                   (r, st'', evs'') \<Rightarrow> (r, st'', evs' @ evs''))))"
  apply (subst processBatch.simps)
  apply (simp add: attempt_def Let_def split: prod.splits sum.splits)
  done

lemma processBatch_induct [case_names step]:
  fixes db :: "('k, 'v, 'd, 'w, 'y) store_scheme" and opts :: "('k, 'v, 'd, 'w, 'z) options_scheme"
    and st :: "'w mstate"
  assumes "\<And>batch retry (st :: 'w mstate).
     (\<And>results w evs. attempt db opts batch (world st) = (Inr results, w, evs) \<Longrightarrow>
        conflictRows batch results \<noteq> [] \<Longrightarrow> retry < retries opts \<Longrightarrow>
        P (conflictRows batch results) (retry + 1)
          (st\<lparr>world := w, realcurrent := realcurrent st + (int (length batch) - int (length (conflictRows batch results)))\<rparr>))
     \<Longrightarrow> P batch retry st"
  shows "P batch retry st"
proof -
  have "db' = db \<Longrightarrow> opts' = opts \<Longrightarrow> P batch retry st" for db' opts'
  proof (induction db' opts' batch retry st rule: processBatch.induct)
    case (1 db' opts' batch retry st)
    show ?case
    proof (rule assms)
      fix results w evs
      assume a: "attempt db opts batch (world st) = (Inr results, w, evs)"
        and c: "conflictRows batch results \<noteq> []" and r: "retry < retries opts"
      from a obtain extraDocs w1 evs1 evs2 where
        f: "fetchExtraDocs db' batch (world st) = (Inr extraDocs, w1, evs1)" and
        rc: "runChanges db' opts' batch extraDocs w1 = (Inr results, w, evs2)"
        using 1(2,3) by (auto simp: attempt_def split: prod.splits sum.splits)
      show "P (conflictRows batch results) (retry + 1)
            (st\<lparr>world := w, realcurrent := realcurrent st + (int (length batch) - int (length (conflictRows batch results)))\<rparr>)"
        using "1.IH"[OF f[symmetric] refl refl rc[symmetric] refl refl refl refl refl refl c] r 1(2,3)
        by simp
    qed
  qed
  then show ?thesis by simp
qed

subsection \<open>Projections of a trace\<close>

lemma attempts_append [simp]: "attempts (xs @ ys) = attempts xs @ attempts ys"
  by (simp add: attempts_def)
lemma ticks_append [simp]: "ticks (xs @ ys) = ticks xs @ ticks ys"
  by (simp add: ticks_def)
lemma failures_append [simp]: "failures (xs @ ys) = failures xs @ failures ys"
  by (simp add: failures_def)
lemma attempts_Cons [simp]: "attempts (x # xs) = attemptOf x @ attempts xs"
  by (simp add: attempts_def)
lemma ticks_Cons [simp]: "ticks (x # xs) = tickOf x @ ticks xs"
  by (simp add: ticks_def)
lemma failures_Cons [simp]: "failures (x # xs) = failureOf x @ failures xs"
  by (simp add: failures_def)
lemma attempts_Nil [simp]: "attempts [] = []" by (simp add: attempts_def)
lemma ticks_Nil [simp]: "ticks [] = []" by (simp add: ticks_def)
lemma failures_Nil [simp]: "failures [] = []" by (simp add: failures_def)

lemma calls_project:
  "list_all isCalled evs \<Longrightarrow> attempts evs = [] \<and> ticks evs = [] \<and> failures evs = []"
proof (induction evs)
  case Nil then show ?case by simp
next
  case (Cons ev evs)
  then show ?case by (cases ev) auto
qed

lemma series_calls: "series mk f xs w = (r, w', evs) \<Longrightarrow> list_all isCalled evs"
  by (induction xs arbitrary: w r w' evs) (auto split: prod.splits sum.splits)

lemma fetchExtraDocs_calls: "fetchExtraDocs db batch w = (r, w', evs) \<Longrightarrow> list_all isCalled evs"
  by (auto simp: fetchExtraDocs_def Let_def split: if_splits prod.splits sum.splits)

lemma runChanges_calls: "runChanges db opts batch ds w = (r, w', evs) \<Longrightarrow> list_all isCalled evs"
  by (auto simp: runChanges_def Let_def split: if_splits prod.splits sum.splits dest: series_calls)

lemma attempt_calls: "attempt db opts batch w = (r, w', evs) \<Longrightarrow> list_all isCalled evs"
  by (auto simp: attempt_def split: prod.splits sum.splits dest: fetchExtraDocs_calls runChanges_calls)

lemma failures_reports [simp]:
  "failures (map (\<lambda>row. ReportFailure row e) rows) = map (\<lambda>row. (row, e)) rows"
  by (induction rows) auto
lemma attempts_reports [simp]: "attempts (map (\<lambda>row. ReportFailure row e) rows) = []"
  by (induction rows) auto
lemma ticks_reports [simp]: "ticks (map (\<lambda>row. ReportFailure row e) rows) = []"
  by (induction rows) auto

lemma processBatch_chain:
  fixes db :: "('k, 'v, 'd, 'w, 'y) store_scheme" and opts :: "('k, 'v, 'd, 'w, 'z) options_scheme"
    and st :: "'w mstate"
  shows "processBatch db opts batch retry st = (res, st', evs) \<Longrightarrow>
     retry_chain (res \<noteq> None) (retries opts) retry batch (attempts evs)"
proof (induction batch retry st arbitrary: res st' evs rule: processBatch_induct[where db=db and opts=opts])
  case (step batch retry st)
  obtain r w evs0 where a: "attempt db opts batch (world st) = (r, w, evs0)"
    by (cases "attempt db opts batch (world st)") auto
  note c = calls_project[OF attempt_calls[OF a]]
  show ?case
  proof (cases r)
    case (Inl err)
    with a step.prems c show ?thesis
      by (subst (asm) processBatch_unfold) auto
  next
    case (Inr results)
    show ?thesis
    proof (cases "conflictRows batch results \<noteq> [] \<and> retry < retries opts")
      case False
      with a Inr step.prems c show ?thesis
        by (subst (asm) processBatch_unfold) (auto simp: Let_def split: if_splits)
    next
      case True
      let ?st1 = "st\<lparr>world := w, realcurrent := realcurrent st + (int (length batch) - int (length (conflictRows batch results)))\<rparr>"
      obtain r2 st2 evs2 where p: "processBatch db opts (conflictRows batch results) (retry + 1) ?st1 = (r2, st2, evs2)"
        by (cases "processBatch db opts (conflictRows batch results) (retry + 1) ?st1") auto
      have ih: "retry_chain (r2 \<noteq> None) (retries opts) (retry + 1) (conflictRows batch results) (attempts evs2)"
        using step.IH[OF a[unfolded Inr] _ _ p] True by simp
      from a Inr step.prems c True p ih show ?thesis
        by (subst (asm) processBatch_unfold) (auto simp: Let_def)
    qed
  qed
qed

subsection \<open>How an attempt ends\<close>

lemma clean_append [simp]: "clean (xs @ ys) = (clean xs \<and> clean ys)"
  by (simp add: clean_def)
lemma clean_Nil [simp]: "clean []" by (simp add: clean_def)
lemma clean_Cons [simp]: "clean (x # xs) = (\<not> failedFatal x \<and> clean xs)"
  by (simp add: clean_def)
lemma clean_reports [simp]: "clean (map (\<lambda>row. ReportFailure row e) rows)"
  by (induction rows) auto

lemma aborted_append: "clean xs \<Longrightarrow> aborted e ys \<Longrightarrow> aborted e (xs @ ys)"
  unfolding aborted_def by (metis append.assoc clean_append)

lemma aborted_Cons: "\<not> failedFatal x \<Longrightarrow> aborted e ys \<Longrightarrow> aborted e (x # ys)"
  using aborted_append[of "[x]" e ys] by simp

lemma aborted_single: "fatal c \<Longrightarrow> aborted e [Called c (Some e)]"
  unfolding aborted_def by (metis append_Nil clean_Nil)

lemma series_outcome:
  "series mk f xs w = (r, w', evs) \<Longrightarrow> (\<And>x. fatal (mk x)) \<Longrightarrow>
     (case r of Inl e \<Rightarrow> aborted e evs | Inr rs \<Rightarrow> clean evs)"
proof (induction xs arbitrary: w r w' evs)
  case Nil then show ?case by auto
next
  case (Cons x xs)
  obtain v w1 where f: "f x w = (v, w1)" by (cases "f x w")
  show ?case
  proof (cases v)
    case (Inl e)
    with f Cons.prems show ?thesis by (auto simp: aborted_single)
  next
    case (Inr y)
    obtain r2 w2 evs2 where s: "series mk f xs w1 = (r2, w2, evs2)" by (cases "series mk f xs w1") auto
    from Cons.IH[OF s Cons.prems(2)] f Inr s Cons.prems(1) show ?thesis
      by (cases r2) (auto simp: aborted_Cons)
  qed
qed

lemma fetchExtraDocs_outcome:
  "fetchExtraDocs db batch w = (r, w', evs) \<Longrightarrow>
     (case r of Inl e \<Rightarrow> aborted e evs | Inr ds \<Rightarrow> clean evs)"
  by (auto simp: fetchExtraDocs_def Let_def aborted_single split: if_splits prod.splits sum.splits)

lemma runChanges_outcome:
  assumes "runChanges db opts batch ds w = (r, w', evs)"
  shows "case r of Inl e \<Rightarrow> aborted e evs | Inr rs \<Rightarrow> clean evs"
proof -
  obtain r1 w1 evs1 where s: "series (\<lambda>(row, docs). ChangesCb row docs) (changesFn opts)
             (map (\<lambda>i. (batch ! i, docsAt ds i)) [0..<length batch]) w = (r1, w1, evs1)"
    using prod_cases3 by blast
  have o: "case r1 of Inl e \<Rightarrow> aborted e evs1 | Inr rs \<Rightarrow> clean evs1"
    by (rule series_outcome[OF s]) (auto split: prod.splits)
  show ?thesis
  proof (cases r1)
    case (Inl e)
    with assms s o show ?thesis by (auto simp: runChanges_def)
  next
    case (Inr cs)
    with assms s o show ?thesis
      by (auto simp: runChanges_def Let_def aborted_single intro!: aborted_append split: prod.splits sum.splits)
  qed
qed

lemma attempt_outcome:
  assumes "attempt db opts batch w = (r, w', evs)"
  shows "case r of Inl e \<Rightarrow> aborted e evs | Inr rs \<Rightarrow> clean evs"
proof -
  obtain r1 w1 evs1 where f: "fetchExtraDocs db batch w = (r1, w1, evs1)"
    using prod_cases3 by blast
  note o1 = fetchExtraDocs_outcome[OF f]
  show ?thesis
  proof (cases r1)
    case (Inl e)
    with assms f o1 show ?thesis by (auto simp: attempt_def)
  next
    case (Inr ds)
    obtain r2 w2 evs2 where rc: "runChanges db opts batch ds w1 = (r2, w2, evs2)"
      using prod_cases3 by blast
    note o2 = runChanges_outcome[OF rc]
    from assms f Inr rc o1 o2 show ?thesis
      by (cases r2) (auto simp: attempt_def intro!: aborted_append)
  qed
qed

lemma processBatch_trace:
  fixes db :: "('k, 'v, 'd, 'w, 'y) store_scheme" and opts :: "('k, 'v, 'd, 'w, 'z) options_scheme"
    and st :: "'w mstate"
  shows "processBatch db opts batch retry st = (res, st', evs) \<Longrightarrow>
     ticks evs = map tick_of (attempts evs) \<and>
     realcurrent st' = realcurrent st + sum_list (ticks evs) \<and>
     failures evs = (if res = None then map (\<lambda>row. (row, Err ''Conflict'')) (final_conflicts (attempts evs)) else []) \<and>
     (case res of None \<Rightarrow> clean evs | Some e \<Rightarrow> aborted e evs)"
proof (induction batch retry st arbitrary: res st' evs rule: processBatch_induct[where db=db and opts=opts])
  case (step batch retry st)
  obtain r w evs0 where a: "attempt db opts batch (world st) = (r, w, evs0)"
    by (cases "attempt db opts batch (world st)") auto
  note c = calls_project[OF attempt_calls[OF a]]
  note o = attempt_outcome[OF a]
  show ?case
  proof (cases r)
    case (Inl err)
    with a step.prems c o show ?thesis
      by (subst (asm) processBatch_unfold) auto
  next
    case (Inr results)
    show ?thesis
    proof (cases "conflictRows batch results \<noteq> [] \<and> retry < retries opts")
      case False
      with a Inr step.prems c o show ?thesis
        by (subst (asm) processBatch_unfold) (auto simp: Let_def split: if_splits)
    next
      case True
      let ?st1 = "st\<lparr>world := w, realcurrent := realcurrent st + (int (length batch) - int (length (conflictRows batch results)))\<rparr>"
      obtain r2 st2 evs2 where p: "processBatch db opts (conflictRows batch results) (retry + 1) ?st1 = (r2, st2, evs2)"
        by (cases "processBatch db opts (conflictRows batch results) (retry + 1) ?st1") auto
      note ih = step.IH[OF a[unfolded Inr] _ _ p]
      note ch = processBatch_chain[OF p]
      have ne: "r2 = None \<Longrightarrow> attempts evs2 \<noteq> []" using ch by (cases "attempts evs2") auto
      have fc: "attempts evs2 \<noteq> [] \<Longrightarrow> final_conflicts (x # attempts evs2) = final_conflicts (attempts evs2)" for x
        by (cases "attempts evs2") auto
      from a Inr step.prems c o True p ih ne fc show ?thesis
        by (subst (asm) processBatch_unfold) (auto simp: Let_def intro!: aborted_append aborted_Cons split: option.splits)
    qed
  qed
qed

subsection \<open>The chain of retries\<close>

lemma conflictRows_subset: "set (conflictRows b rs) \<subseteq> set b"
  by (auto simp: conflictRows_def dest: set_zip_leftD)

lemma conflictRows_Nil [simp]: "conflictRows [] rs = []" "conflictRows b [] = []"
  by (simp_all add: conflictRows_def)

lemma conflictRows_Cons [simp]:
  "conflictRows (x # b) (y # rs) =
     (if list_ex is_conflict y then x # conflictRows b rs else conflictRows b rs)"
  by (simp add: conflictRows_def)

lemma conflictRows_length: "length (conflictRows b rs) \<le> length b"
proof (induction b arbitrary: rs)
  case Nil then show ?case by simp
next
  case (Cons x b)
  show ?case using Cons.IH[of "tl rs"] by (cases rs) (auto simp: le_SucI)
qed

lemma conflictRows_distinct: "distinct b \<Longrightarrow> distinct (conflictRows b rs)"
proof (induction b arbitrary: rs)
  case Nil then show ?case by simp
next
  case (Cons x b)
  show ?case
  proof (cases rs)
    case Nil then show ?thesis by simp
  next
    case (Cons y rs')
    with Cons.IH[of rs'] Cons.prems conflictRows_subset[of b rs'] show ?thesis by auto
  qed
qed

lemma successes_length:
  "distinct b \<Longrightarrow> int (length (successes_of (n, b, rs))) = int (length b) - int (length (conflictRows b rs))"
proof (induction b arbitrary: rs)
  case Nil then show ?case by simp
next
  case (Cons x b)
  show ?case
  proof (cases rs)
    case Nil then show ?thesis by simp
  next
    case (Cons y rs')
    have sub: "x \<notin> set (conflictRows b rs')" using Cons.prems conflictRows_subset[of b rs'] by auto
    have eq: "filter (\<lambda>row. row \<notin> set (x # conflictRows b rs')) b = filter (\<lambda>row. row \<notin> set (conflictRows b rs')) b"
      using Cons.prems by (intro filter_cong) auto
    from Cons.IH[of rs'] Cons.prems sub eq Cons show ?thesis by auto
  qed
qed

lemma chain_subset:
  "retry_chain ab R retry batch as \<Longrightarrow> a \<in> set as \<Longrightarrow> set (batch_of a) \<subseteq> set batch"
proof (induction as arbitrary: retry batch)
  case Nil then show ?case by simp
next
  case (Cons x as)
  obtain n b rs where x: "x = (n, b, rs)" by (cases x)
  show ?case
  proof (cases "a = x")
    case True with Cons.prems x show ?thesis by auto
  next
    case False
    with Cons.prems x have "retry_chain ab R (retry + 1) (conflictRows b rs) as" "a \<in> set as" "b = batch"
      by (auto split: if_splits)
    from Cons.IH[OF this(1,2)] conflictRows_subset[of b rs] this(3) show ?thesis by auto
  qed
qed

lemma chain_distinct:
  "retry_chain ab R retry batch as \<Longrightarrow> distinct batch \<Longrightarrow> a \<in> set as \<Longrightarrow> distinct (batch_of a)"
proof (induction as arbitrary: retry batch)
  case Nil then show ?case by simp
next
  case (Cons x as)
  obtain n b rs where x: "x = (n, b, rs)" by (cases x)
  show ?case
  proof (cases "a = x")
    case True with Cons.prems x show ?thesis by auto
  next
    case False
    with Cons.prems x have "retry_chain ab R (retry + 1) (conflictRows b rs) as" "a \<in> set as" "b = batch"
      by (auto split: if_splits)
    from Cons.IH[OF this(1) _ this(2)] conflictRows_distinct[of b rs] this(3) Cons.prems(2) show ?thesis by auto
  qed
qed

lemma final_conflicts_subset:
  "retry_chain ab R retry batch as \<Longrightarrow> set (final_conflicts as) \<subseteq> set batch"
proof (induction as arbitrary: retry batch)
  case Nil then show ?case by simp
next
  case (Cons x as)
  obtain n b rs where x: "x = (n, b, rs)" by (cases x)
  show ?case
  proof (cases as)
    case Nil with Cons.prems x conflictRows_subset[of b rs] show ?thesis by auto
  next
    case (Cons y ys)
    with Cons.prems x have c: "retry_chain ab R (retry + 1) (conflictRows b rs) as" "b = batch"
      by (auto split: if_splits)
    from Cons.IH[OF c(1)] conflictRows_subset[of b rs] c(2) Cons x show ?thesis by auto
  qed
qed

lemma chain_sum:
  "retry_chain False R retry batch as \<Longrightarrow>
     sum_list (map tick_of as) = int (length batch) - int (length (final_conflicts as))"
proof (induction as arbitrary: retry batch)
  case Nil then show ?case by simp
next
  case (Cons x as)
  obtain n b rs where x: "x = (n, b, rs)" by (cases x)
  show ?case
  proof (cases as)
    case Nil with Cons.prems x show ?thesis by auto
  next
    case (Cons y ys)
    with Cons.prems x have c: "retry_chain False R (retry + 1) (conflictRows b rs) as" "b = batch"
      by (auto split: if_splits)
    from Cons.IH[OF c(1)] c(2) Cons x show ?thesis by auto
  qed
qed

lemma chain_always:
  "retry_chain False R retry batch as \<Longrightarrow> r \<in> set batch \<Longrightarrow>
   (\<forall>a \<in> set as. r \<in> set (batch_of a) \<longrightarrow> r \<in> set (conflicts_of a)) \<Longrightarrow>
   length as = nat (R - retry) + 1 \<and> (\<forall>a \<in> set as. r \<in> set (batch_of a)) \<and>
   r \<in> set (final_conflicts as)"
proof (induction as arbitrary: retry batch)
  case Nil then show ?case by simp
next
  case (Cons x as)
  obtain n b rs where x: "x = (n, b, rs)" by (cases x)
  from Cons.prems x have b: "b = batch" "n = retry" and rc: "r \<in> set (conflictRows b rs)" by auto
  show ?case
  proof (cases "R \<le> retry")
    case True
    with Cons.prems x rc have "as = []" by auto
    with True x rc b Cons.prems(2) show ?thesis by auto
  next
    case False
    with Cons.prems x rc have c: "retry_chain False R (retry + 1) (conflictRows b rs) as"
      by (cases "conflictRows b rs = []") auto
    then have ne: "as \<noteq> []" by (cases as) auto
    from Cons.IH[OF c rc] Cons.prems(3)
    have ih: "length as = nat (R - (retry + 1)) + 1" "\<forall>a \<in> set as. r \<in> set (batch_of a)"
      "r \<in> set (final_conflicts as)" by auto
    have fc: "final_conflicts (x # as) = final_conflicts as" using ne by (cases as) auto
    from ih fc False x b Cons.prems(2) show ?thesis by (auto simp: nat_diff_distrib)
  qed
qed

lemma chain_absent:
  "retry_chain ab R retry batch as \<Longrightarrow> r \<notin> set batch \<Longrightarrow>
   (\<forall>a \<in> set as. r \<notin> set (batch_of a)) \<and> r \<notin> set (final_conflicts as)"
  using chain_subset[of ab R retry batch as] final_conflicts_subset[of ab R retry batch as]
  by blast

lemma chain_success_once:
  "retry_chain ab R retry batch as \<Longrightarrow> k < length as \<Longrightarrow>
   r \<in> set (batch_of (as ! k)) \<Longrightarrow> r \<notin> set (conflicts_of (as ! k)) \<Longrightarrow>
   (\<forall>j<k. r \<in> set (conflicts_of (as ! j))) \<and>
   (\<forall>j<length as. k < j \<longrightarrow> r \<notin> set (batch_of (as ! j))) \<and>
   r \<notin> set (final_conflicts as)"
proof (induction as arbitrary: retry batch k)
  case Nil then show ?case by simp
next
  case (Cons x as)
  obtain n b rs where x: "x = (n, b, rs)" by (cases x)
  show ?case
  proof (cases k)
    case 0
    with Cons.prems x have nc: "r \<notin> set (conflictRows b rs)" by simp
    show ?thesis
    proof (cases as)
      case Nil with 0 x nc show ?thesis by simp
    next
      case (Cons y ys)
      with Cons.prems(1) x have c: "retry_chain ab R (retry + 1) (conflictRows b rs) as"
        by (auto split: if_splits)
      from chain_absent[OF c nc] 0 Cons show ?thesis
        by (auto simp: nth_Cons split: nat.splits)
    qed
  next
    case (Suc k')
    with Cons.prems have ne: "as \<noteq> []" by auto
    with Cons.prems(1) x have c: "retry_chain ab R (retry + 1) (conflictRows b rs) as"
      by (auto split: if_splits)
    from Cons.prems Suc have p: "k' < length as" "r \<in> set (batch_of (as ! k'))" "r \<notin> set (conflicts_of (as ! k'))"
      by auto
    note ih = Cons.IH[OF c p]
    have "r \<in> set (conflictRows b rs)" using chain_subset[OF c, of "as ! k'"] p by auto
    moreover have "final_conflicts (x # as) = final_conflicts as" using ne by (cases as) auto
    ultimately show ?thesis using ih Suc x
      by (auto simp: nth_Cons less_Suc_eq_0_disj split: nat.splits)
  qed
qed

lemma count_list_distinct: "distinct xs \<Longrightarrow> x \<in> set xs \<Longrightarrow> count_list xs x = 1"
  by (induction xs) auto

lemma final_conflicts_distinct:
  "retry_chain ab R retry batch as \<Longrightarrow> distinct batch \<Longrightarrow> distinct (final_conflicts as)"
proof (induction as arbitrary: retry batch)
  case Nil then show ?case by simp
next
  case (Cons x as)
  obtain n b rs where x: "x = (n, b, rs)" by (cases x)
  show ?case
  proof (cases as)
    case Nil with Cons.prems x conflictRows_distinct[of b rs] show ?thesis by auto
  next
    case (Cons y ys)
    with Cons.prems(1) x have c: "retry_chain ab R (retry + 1) (conflictRows b rs) as" "b = batch"
      by (auto split: if_splits)
    from Cons.IH[OF c(1)] conflictRows_distinct[of b rs] c(2) Cons.prems(2) Cons x show ?thesis by auto
  qed
qed

lemma aborted_failed: "aborted e evs \<Longrightarrow> \<exists>c. Called c (Some e) \<in> set evs"
  by (auto simp: aborted_def)

lemma chain_numbers:
  "retry_chain ab R retry batch as \<Longrightarrow> map fst as = map (\<lambda>i. retry + int i) [0..<length as]"
proof (induction as arbitrary: retry batch)
  case Nil then show ?case by simp
next
  case (Cons x as)
  obtain n b rs where x: "x = (n, b, rs)" by (cases x)
  show ?case
  proof (cases as)
    case Nil with Cons.prems x show ?thesis by auto
  next
    case (Cons y ys)
    with Cons.prems(1) x have c: "retry_chain ab R (retry + 1) (conflictRows b rs) as" "n = retry"
      by (auto split: if_splits)
    have "[0..<length (x # as)] = 0 # map Suc [0..<length as]"
      by (simp add: upt_conv_Cons map_Suc_upt del: upt_Suc)
    with Cons.IH[OF c(1)] c(2) x show ?thesis by (simp add: comp_def del: upt_Suc)
  qed
qed

subsection \<open>Properties of every event of a sub-batch\<close>

lemma series_all:
  "series mk f xs w = (r, w', evs) \<Longrightarrow> (\<And>x out. x \<in> set xs \<Longrightarrow> Q (Called (mk x) out)) \<Longrightarrow>
     list_all Q evs"
proof (induction xs arbitrary: w r w' evs)
  case Nil then show ?case by auto
next
  case (Cons x xs)
  obtain v w1 where f: "f x w = (v, w1)" by (cases "f x w")
  show ?case
  proof (cases v)
    case (Inl e)
    with f Cons.prems show ?thesis by auto
  next
    case (Inr y)
    obtain r2 w2 evs2 where s: "series mk f xs w1 = (r2, w2, evs2)" by (cases "series mk f xs w1") auto
    have "list_all Q evs2" by (rule Cons.IH[OF s]) (simp add: Cons.prems(2))
    with f Inr s Cons.prems show ?thesis by (cases r2) auto
  qed
qed

lemma attempt_no_keys_calls:
  assumes "attempt db opts batch w = (r, w', evs)"
  shows "list_all (\<lambda>ev. \<not> isKeysCall ev) evs"
proof -
  obtain r1 w1 evs1 where f: "fetchExtraDocs db batch w = (r1, w1, evs1)"
    using prod_cases3 by blast
  have e1: "list_all (\<lambda>ev. \<not> isKeysCall ev) evs1"
    using f by (auto simp: fetchExtraDocs_def Let_def split: if_splits prod.splits sum.splits)
  show ?thesis
  proof (cases r1)
    case (Inl e)
    with assms f e1 show ?thesis by (auto simp: attempt_def)
  next
    case (Inr ds)
    obtain r2 w2 evs2 where rc: "runChanges db opts batch ds w1 = (r2, w2, evs2)"
      using prod_cases3 by blast
    obtain r3 w3 evs3 where s: "series (\<lambda>(row, docs). ChangesCb row docs) (changesFn opts)
             (map (\<lambda>i. (batch ! i, docsAt ds i)) [0..<length batch]) w1 = (r3, w3, evs3)"
      using prod_cases3 by blast
    have "list_all (\<lambda>ev. \<not> isKeysCall ev) evs3"
      by (rule series_all[OF s]) (auto split: prod.splits)
    with rc s have "list_all (\<lambda>ev. \<not> isKeysCall ev) evs2"
      by (auto simp: runChanges_def Let_def split: prod.splits sum.splits)
    with assms f Inr rc e1 show ?thesis by (auto simp: attempt_def)
  qed
qed

lemma processBatch_all:
  fixes db :: "('k, 'v, 'd, 'w, 'y) store_scheme" and opts :: "('k, 'v, 'd, 'w, 'z) options_scheme"
    and st :: "'w mstate"
  assumes att: "\<And>batch' w r w' evs. set batch' \<subseteq> set batch0 \<Longrightarrow>
        attempt db opts batch' w = (r, w', evs) \<Longrightarrow> list_all Q evs"
    and other: "\<And>n b rs. Q (ProcessErrors n b rs)" "\<And>s t. Q (Tick s t)"
      "\<And>row. Q (ReportFailure row (Err ''Conflict''))"
  shows "set batch \<subseteq> set batch0 \<Longrightarrow> processBatch db opts batch retry st = (res, st', evs) \<Longrightarrow>
     list_all Q evs"
proof (induction batch retry st arbitrary: res st' evs rule: processBatch_induct[where db=db and opts=opts])
  case (step batch retry st)
  obtain r w evs0 where a: "attempt db opts batch (world st) = (r, w, evs0)"
    by (cases "attempt db opts batch (world st)") auto
  note q = att[OF step.prems(1) a]
  have rep: "list_all Q (map (\<lambda>row. ReportFailure row (Err ''Conflict'')) rows)" for rows
    by (induction rows) (auto simp: other)
  show ?case
  proof (cases r)
    case (Inl err)
    with a step.prems q show ?thesis
      by (subst (asm) processBatch_unfold) auto
  next
    case (Inr results)
    show ?thesis
    proof (cases "conflictRows batch results \<noteq> [] \<and> retry < retries opts")
      case False
      with a Inr step.prems q rep show ?thesis
        by (subst (asm) processBatch_unfold) (auto simp: Let_def other split: if_splits)
    next
      case True
      let ?st1 = "st\<lparr>world := w, realcurrent := realcurrent st + (int (length batch) - int (length (conflictRows batch results)))\<rparr>"
      obtain r2 st2 evs2 where p: "processBatch db opts (conflictRows batch results) (retry + 1) ?st1 = (r2, st2, evs2)"
        by (cases "processBatch db opts (conflictRows batch results) (retry + 1) ?st1") auto
      have sub: "set (conflictRows batch results) \<subseteq> set batch0"
        using conflictRows_subset[of batch results] step.prems(1) by auto
      have ih: "list_all Q evs2"
        using step.IH[OF a[unfolded Inr] _ _ sub p] True by simp
      from a Inr step.prems q True p ih show ?thesis
        by (subst (asm) processBatch_unfold) (auto simp: Let_def other)
    qed
  qed
qed

subsection \<open>Write results and the success counter\<close>

lemma list_ex_conflict: "list_ex is_conflict g = (Rejected ''conflict'' \<in> set g)"
  by (auto simp: list_ex_iff is_conflict_def)

lemma conflictRows_conflicted:
  "distinct b \<Longrightarrow> conflictRows b rs = filter (\<lambda>row. conflicted row (n, b, rs)) b"
proof (induction b arbitrary: rs)
  case Nil then show ?case by simp
next
  case (Cons x b)
  show ?case
  proof (cases rs)
    case Nil then show ?thesis by (simp add: conflicted_def)
  next
    case (Cons y rs')
    have "filter (\<lambda>row. conflicted row (n, x # b, y # rs')) b = filter (\<lambda>row. conflicted row (n, b, rs')) b"
      using Cons.prems by (intro filter_cong) (auto simp: conflicted_def)
    with Cons.IH[of rs'] Cons.prems Cons show ?thesis
      by (simp add: conflicted_def list_ex_conflict)
  qed
qed

lemma written_not_conflicted:
  "distinct b \<Longrightarrow> length rs = length b \<Longrightarrow>
     filter (\<lambda>row. written row (n, b, rs)) b = filter (\<lambda>row. row \<notin> set (conflictRows b rs)) b"
proof -
  assume d: "distinct b" and l: "length rs = length b"
  have "written row (n, b, rs) = (row \<notin> set (conflictRows b rs))" if "row \<in> set b" for row
  proof -
    from that l have "row \<in> fst ` set (zip b rs)" by (metis map_fst_zip set_map)
    then obtain g where g: "map_of (zip b rs) row = Some g"
      by (metis domIff dom_map_of_conv_image_fst not_Some_eq)
    then show ?thesis
      unfolding conflictRows_conflicted[OF d, of rs n] using that
      by (simp add: written_def conflicted_def)
  qed
  then show ?thesis by (intro filter_cong) auto
qed

lemma written_in_batch: "written r a \<Longrightarrow> r \<in> set (batch_of a)"
  by (cases a) (auto simp: written_def split: option.splits dest!: map_of_SomeD set_zip_leftD)

lemma written_no_conflict:
  "distinct (batch_of a) \<Longrightarrow> written r a \<Longrightarrow> r \<notin> set (conflicts_of a)"
proof (cases a)
  case (fields n b rs)
  assume "distinct (batch_of a)" "written r a"
  then show ?thesis using fields conflictRows_conflicted[of b rs n]
    by (auto simp: written_def conflicted_def split: option.splits)
qed

lemma unflatten_from_length [simp]: "length (unflatten_from i array counts) = length counts"
  by (induction i array counts rule: unflatten_from.induct) auto

lemma series_length:
  "series mk f xs w = (Inr rs, w', evs) \<Longrightarrow> length rs = length xs"
  by (induction xs arbitrary: w rs w' evs) (auto split: prod.splits sum.splits)

lemma attempt_length:
  "attempt db opts batch w = (Inr results, w', evs) \<Longrightarrow> length results = length batch"
  by (auto simp: attempt_def runChanges_def Let_def unflatten_def
       split: prod.splits sum.splits dest!: series_length)

lemma counters_simps [simp]:
  "counters [] = []" "counters (x # xs) = counterOf x @ counters xs"
  "counters (xs @ ys) = counters xs @ counters ys"
  by (simp_all add: counters_def)

lemma calls_counters: "list_all isCalled evs \<Longrightarrow> counters evs = []"
proof (induction evs)
  case Nil then show ?case by simp
next
  case (Cons ev evs) then show ?case by (cases ev) auto
qed

lemma counters_reports [simp]: "counters (map (\<lambda>row. ReportFailure row e) rows) = []"
  by (induction rows) auto

lemma processBatch_counter:
  fixes db :: "('k, 'v, 'd, 'w, 'y) store_scheme" and opts :: "('k, 'v, 'd, 'w, 'z) options_scheme"
    and st :: "'w mstate"
  shows "processBatch db opts batch retry st = (res, st', evs) \<Longrightarrow>
     counters evs = running (realcurrent st) (ticks evs) \<and>
     list_all (\<lambda>(n, b, rs). length rs = length b) (attempts evs)"
proof (induction batch retry st arbitrary: res st' evs rule: processBatch_induct[where db=db and opts=opts])
  case (step batch retry st)
  obtain r w evs0 where a: "attempt db opts batch (world st) = (r, w, evs0)"
    by (cases "attempt db opts batch (world st)") auto
  note c = calls_project[OF attempt_calls[OF a]] calls_counters[OF attempt_calls[OF a]]
  show ?case
  proof (cases r)
    case (Inl err)
    with a step.prems c show ?thesis
      by (subst (asm) processBatch_unfold) auto
  next
    case (Inr results)
    note l = attempt_length[OF a[unfolded Inr]]
    show ?thesis
    proof (cases "conflictRows batch results \<noteq> [] \<and> retry < retries opts")
      case False
      with a Inr step.prems c l show ?thesis
        by (subst (asm) processBatch_unfold) (auto simp: Let_def split: if_splits)
    next
      case True
      let ?st1 = "st\<lparr>world := w, realcurrent := realcurrent st + (int (length batch) - int (length (conflictRows batch results)))\<rparr>"
      obtain r2 st2 evs2 where p: "processBatch db opts (conflictRows batch results) (retry + 1) ?st1 = (r2, st2, evs2)"
        by (cases "processBatch db opts (conflictRows batch results) (retry + 1) ?st1") auto
      note ih = step.IH[OF a[unfolded Inr] _ _ p]
      from a Inr step.prems c True p ih l show ?thesis
        by (subst (asm) processBatch_unfold) (auto simp: Let_def)
    qed
  qed
qed

lemma chain_length:
  "retry_chain ab R retry batch as \<Longrightarrow> length as \<le> nat (R - retry) + 1"
proof (induction as arbitrary: retry batch)
  case Nil then show ?case by simp
next
  case (Cons x as)
  obtain n b rs where x: "x = (n, b, rs)" by (cases x)
  show ?case
  proof (cases "conflictRows b rs = [] \<or> R \<le> retry")
    case True with Cons.prems x show ?thesis by auto
  next
    case False
    with Cons.prems x have "retry_chain ab R (retry + 1) (conflictRows b rs) as" by auto
    from Cons.IH[OF this] False show ?thesis by (auto simp: nat_diff_distrib)
  qed
qed

section \<open>The page handler\<close>

subsection \<open>The filter\<close>

lemma calls_Nil [simp]: "calls [] = []" by (simp add: calls_def)
lemma calls_Cons [simp]: "calls (x # xs) = callOf x @ calls xs" by (simp add: calls_def)
lemma calls_append [simp]: "calls (xs @ ys) = calls xs @ calls ys" by (simp add: calls_def)

lemma filterRows_result:
  fixes evs :: "('k, 'v, 'd) event list"
  shows "filterRows f rows w = (kept, w', evs) \<Longrightarrow>
     kept = map fst (filter (\<lambda>(row, v). v = Inr True) (zip rows (verdicts f rows w))) \<and>
     failures evs = concat (map (\<lambda>(row, v). case v of Inl e \<Rightarrow> [(row, e)] | Inr b \<Rightarrow> [])
                              (zip rows (verdicts f rows w))) \<and>
     calls evs = map (\<lambda>(row, v). (FilterCb row, thrown v)) (zip rows (verdicts f rows w)) \<and>
     attempts evs = [] \<and> ticks evs = [] \<and> clean evs"
proof (induction rows arbitrary: w kept w' evs)
  case Nil then show ?case by simp
next
  case (Cons row rows)
  obtain v w1 where f: "f row w = (v, w1)" by (cases "f row w")
  obtain k2 w2 and evs2 :: "('k, 'v, 'd) event list"
    where r: "filterRows f rows w1 = (k2, w2, evs2)"
    using prod_cases3 by blast
  note ih = Cons.IH[OF r]
  show ?case
  proof (cases v)
    case (Inl e)
    with f r ih Cons.prems show ?thesis by auto
  next
    case (Inr b)
    with f r ih Cons.prems show ?thesis by auto
  qed
qed

lemma runChanges_filter_irrelevant [simp]:
  "runChanges db (opts\<lparr>sourceFilter := x\<rparr>) = runChanges db opts"
  by (intro ext) (simp add: runChanges_def changesFn_def)

lemma attempt_filter_irrelevant [simp]:
  "attempt db (opts\<lparr>sourceFilter := x\<rparr>) = attempt db opts"
  by (intro ext) (simp add: attempt_def split: prod.splits sum.splits)

lemma retries_filter_irrelevant [simp]: "retries (opts\<lparr>sourceFilter := x\<rparr>) = retries opts"
  by (simp add: retries_def)

lemma batchSizeOf_filter_irrelevant [simp]: "batchSizeOf (opts\<lparr>sourceFilter := x\<rparr>) = batchSizeOf opts"
  by (simp add: batchSizeOf_def)

lemma processBatch_filter_irrelevant:
  fixes db :: "('k, 'v, 'd, 'w, 'y) store_scheme" and opts :: "('k, 'v, 'd, 'w, 'z) options_scheme"
    and st :: "'w mstate"
  shows "processBatch db (opts\<lparr>sourceFilter := x\<rparr>) batch retry st = processBatch db opts batch retry st"
proof (induction batch retry st rule: processBatch_induct[where db=db and opts=opts])
  case (step batch retry st)
  obtain r w evs0 where a: "attempt db opts batch (world st) = (r, w, evs0)"
    by (cases "attempt db opts batch (world st)") auto
  show ?case
  proof (cases r)
    case (Inl err)
    with a show ?thesis
      by (subst (1 2) processBatch_unfold) auto
  next
    case (Inr results)
    show ?thesis
    proof (cases "conflictRows batch results \<noteq> [] \<and> retry < retries opts")
      case False
      with a Inr show ?thesis
        by (subst (1 2) processBatch_unfold) (auto simp: Let_def)
    next
      case True
      with step.IH[OF a[unfolded Inr]] a Inr show ?thesis
        by (subst (1 2) processBatch_unfold) (auto simp: Let_def)
    qed
  qed
qed

lemma getExtraKeyInfo_filter_irrelevant [simp]:
  "getExtraKeyInfo db (opts\<lparr>sourceFilter := x\<rparr>) batch st = getExtraKeyInfo db opts batch st"
  by (simp add: getExtraKeyInfo_def fetchKeysFn_def processBatch_filter_irrelevant
        split: prod.splits sum.splits)

lemma subBatches_filter_irrelevant:
  "subBatches db (opts\<lparr>sourceFilter := x\<rparr>) rows count st = subBatches db opts rows count st"
proof (induction db opts rows count st rule: subBatches.induct)
  case (1 db opts rows count st)
  show ?case
  proof (cases "count < length rows")
    case False
    then show ?thesis by (subst (1 2) subBatches.simps) simp
  next
    case True
    obtain r st1 evs1 where g: "getExtraKeyInfo db opts (take (batchSizeOf opts) (drop count rows)) st = (r, st1, evs1)"
      using prod_cases3 by blast
    show ?thesis
    proof (cases r)
      case (Some e)
      with True g show ?thesis by (subst (1 2) subBatches.simps) simp
    next
      case None
      from "1.IH"[OF True g[symmetric] None refl] True g None show ?thesis
        by (subst (1 2) subBatches.simps) simp
    qed
  qed
qed

subsection \<open>How a page and a scan end\<close>

lemma noComplete_simps [simp]:
  "noComplete []" "noComplete (x # xs) = (\<not> isComplete x \<and> noComplete xs)"
  "noComplete (xs @ ys) = (noComplete xs \<and> noComplete ys)"
  by (simp_all add: noComplete_def)

lemma calls_noComplete: "list_all isCalled evs \<Longrightarrow> noComplete evs"
proof (induction evs)
  case Nil then show ?case by simp
next
  case (Cons ev evs) then show ?case by (cases ev) auto
qed

lemma ended_None [simp]: "ended None evs = (noComplete evs \<and> clean evs)"
  by (simp add: ended_def)

lemma ended_Some [simp]: "ended (Some e) evs = (noComplete evs \<and> aborted e evs)"
  by (simp add: ended_def)

lemma ended_append: "noComplete xs \<Longrightarrow> clean xs \<Longrightarrow> ended r ys \<Longrightarrow> ended r (xs @ ys)"
  by (cases r) (auto intro: aborted_append)

lemma ended_Cons: "\<not> isComplete x \<Longrightarrow> \<not> failedFatal x \<Longrightarrow> ended r ys \<Longrightarrow> ended r (x # ys)"
  using ended_append[of "[x]" r ys] by simp

lemma processBatch_noComplete:
  fixes db :: "('k, 'v, 'd, 'w, 'y) store_scheme" and opts :: "('k, 'v, 'd, 'w, 'z) options_scheme"
    and st :: "'w mstate"
  assumes "processBatch db opts batch retry st = (res, st', evs)"
  shows "noComplete evs"
  unfolding noComplete_def
proof (rule processBatch_all[OF _ _ _ _ _ assms])
  show "set batch \<subseteq> set batch" by simp
next
  fix batch' w r w' evs
  assume "attempt db opts batch' w = (r, w', evs)"
  from calls_noComplete[OF attempt_calls[OF this]]
  show "list_all (\<lambda>ev. \<not> isComplete ev) evs" by (simp add: noComplete_def)
qed simp_all

lemma processBatch_ended:
  fixes db :: "('k, 'v, 'd, 'w, 'y) store_scheme" and opts :: "('k, 'v, 'd, 'w, 'z) options_scheme"
    and st :: "'w mstate"
  assumes "processBatch db opts batch retry st = (res, st', evs)"
  shows "ended res evs"
  using processBatch_trace[OF assms] processBatch_noComplete[OF assms]
  by (cases res) auto

lemma getExtraKeyInfo_ended:
  fixes db :: "('k, 'v, 'd, 'w, 'y) store_scheme" and opts :: "('k, 'v, 'd, 'w, 'z) options_scheme"
    and st :: "'w mstate"
  assumes "getExtraKeyInfo db opts batch st = (res, st', evs)"
  shows "ended res evs"
proof -
  obtain r1 w1 and evs1 :: "('k, 'v, 'd) event list"
    where s: "series FetchKeysCb (fetchKeysFn opts) batch (world st) = (r1, w1, evs1)"
    using prod_cases3 by blast
  have o: "case r1 of Inl e \<Rightarrow> aborted e evs1 | Inr rs \<Rightarrow> clean evs1"
    by (rule series_outcome[OF s]) simp
  have n: "noComplete evs1" by (rule calls_noComplete[OF series_calls[OF s]])
  show ?thesis
  proof (cases r1)
    case (Inl e)
    with assms s o n show ?thesis
      by (auto simp: getExtraKeyInfo_def intro!: aborted_Cons)
  next
    case (Inr keysByRow)
    let ?b = "map (\<lambda>(row, keys). row\<lparr>extraKeys := normalizeKeys keys\<rparr>) (zip batch keysByRow)"
    obtain r2 st2 evs2 where p: "processBatch db opts ?b 0 (st\<lparr>world := w1\<rparr>) = (r2, st2, evs2)"
      using prod_cases3 by blast
    from processBatch_ended[OF p] have "ended r2 (SubBatch batch # evs1 @ evs2)"
      using o n Inr by (intro ended_Cons ended_append) auto
    with assms s Inr p show ?thesis by (auto simp: getExtraKeyInfo_def)
  qed
qed

lemma subBatches_ended:
  fixes db :: "('k, 'v, 'd, 'w, 'y) store_scheme" and opts :: "('k, 'v, 'd, 'w, 'z) options_scheme"
    and st :: "'w mstate"
  shows "subBatches db opts rows count st = (res, st', evs) \<Longrightarrow> ended res evs"
proof (induction db opts rows count st arbitrary: res st' evs rule: subBatches.induct)
  case (1 db opts rows count st)
  show ?case
  proof (cases "count < length rows")
    case False
    with "1.prems" show ?thesis by (subst (asm) subBatches.simps) auto
  next
    case True
    obtain r st1 evs1 where g: "getExtraKeyInfo db opts (take (batchSizeOf opts) (drop count rows)) st = (r, st1, evs1)"
      using prod_cases3 by blast
    note e1 = getExtraKeyInfo_ended[OF g]
    show ?thesis
    proof (cases r)
      case (Some e)
      with True g e1 "1.prems" show ?thesis by (subst (asm) subBatches.simps) auto
    next
      case None
      obtain r2 st2 evs2 where s: "subBatches db opts rows (count + batchSizeOf opts) st1 = (r2, st2, evs2)"
        using prod_cases3 by blast
      from "1.IH"[OF True g[symmetric] None refl s] have "ended r2 (evs1 @ evs2)"
        using e1 None by (intro ended_append) auto
      with True g None s "1.prems" show ?thesis by (subst (asm) subBatches.simps) auto
    qed
  qed
qed

lemma filterRows_noComplete:
  fixes evs :: "('k, 'v, 'd) event list"
  shows "filterRows f rows w = (kept, w', evs) \<Longrightarrow> noComplete evs"
proof (induction rows arbitrary: w kept w' evs)
  case Nil then show ?case by simp
next
  case (Cons row rows)
  obtain v w1 where f: "f row w = (v, w1)" by (cases "f row w")
  obtain k2 w2 and evs2 :: "('k, 'v, 'd) event list"
    where r: "filterRows f rows w1 = (k2, w2, evs2)"
    using prod_cases3 by blast
  from Cons.IH[OF r] f r Cons.prems show ?case by (cases v) auto
qed

lemma batchHandler_unfold:
  "batchHandler db opts rows0 st0 =
     (case (case sourceFilter opts of
              None \<Rightarrow> (rows0, world st0, [])
            | Some f \<Rightarrow> filterRows f rows0 (world st0)) of
        (rows1, w, evs1) \<Rightarrow>
          (case applyLimit (limit_left st0) rows1 of
             (rows, lim) \<Rightarrow>
               if rows = []
               then (CallNext None,
                     st0\<lparr>batch_no := Suc (batch_no st0), world := w, limit_left := lim\<rparr>, evs1)
               else
                 (case subBatches db opts rows 0
                         (st0\<lparr>batch_no := Suc (batch_no st0), world := w, limit_left := lim\<rparr>) of
                    (r, st3, evs2) \<Rightarrow>
                      (case r of
                         None \<Rightarrow>
                           if lim = Some 0
                           then (NoCallback, st3,
                                 evs1 @ Tick 0 (realcurrent st0) # evs2 @ [Complete None])
                           else (CallNext None, st3, evs1 @ Tick 0 (realcurrent st0) # evs2)
                       | Some (Failed err) \<Rightarrow>
                           if lim = Some 0
                           then (NoCallback, st3,
                                 evs1 @ Tick 0 (realcurrent st0) # evs2 @ [Complete (Some err)])
                           else (CallNext (Some err), st3,
                                 evs1 @ Tick 0 (realcurrent st0) # evs2)
                       | Some (Threw err) \<Rightarrow>
                           (Escaped err, st3, evs1 @ Tick 0 (realcurrent st0) # evs2)))))"
  by (simp add: batchHandler_def Let_def split: option.splits prod.splits failure.splits)

lemma batchHandler_ok:
  fixes db :: "('k, 'v, 'd, 'w, 'y) store_scheme" and opts :: "('k, 'v, 'd, 'w, 'z) options_scheme"
  shows "handler_ok (batchHandler db opts)"
  unfolding handler_ok_def
proof (intro allI impI)
  fix rows0 and st0 :: "'w mstate" and h st' and evs :: "('k, 'v, 'd) event list"
  assume b: "batchHandler db opts rows0 st0 = (h, st', evs)"
  obtain rows1 w and evs1 :: "('k, 'v, 'd) event list" where f:
    "(case sourceFilter opts of None \<Rightarrow> (rows0, world st0, [])
      | Some f \<Rightarrow> filterRows f rows0 (world st0)) = (rows1, w, evs1)"
    using prod_cases3 by blast
  have e1: "clean evs1 \<and> noComplete evs1"
  proof (cases "sourceFilter opts")
    case None with f show ?thesis by auto
  next
    case (Some g)
    with f have fr: "filterRows g rows0 (world st0) = (rows1, w, evs1)" by simp
    from filterRows_result[OF fr] filterRows_noComplete[OF fr] show ?thesis by simp
  qed
  obtain rows lim where a: "applyLimit (limit_left st0) rows1 = (rows, lim)"
    by (cases "applyLimit (limit_left st0) rows1")
  let ?st2 = "st0\<lparr>batch_no := Suc (batch_no st0), world := w, limit_left := lim\<rparr>"
  show "case h of CallNext r \<Rightarrow> ended (map_option Failed r) evs
        | NoCallback \<Rightarrow> finished_trace evs
        | Escaped e \<Rightarrow> ended (Some (Threw e)) evs"
  proof (cases "rows = []")
    case True
    with b f a e1 show ?thesis by (auto simp: batchHandler_unfold)
  next
    case False
    obtain r st3 evs2 where s: "subBatches db opts rows 0 ?st2 = (r, st3, evs2)"
      using prod_cases3 by blast
    let ?evs = "evs1 @ Tick 0 (realcurrent st0) # evs2"
    have e: "ended r ?evs"
      using subBatches_ended[OF s] e1 by (intro ended_append ended_Cons) auto
    have fin: "finished_trace (?evs @ [Complete c])" if "r = map_option Failed c" for c
      unfolding finished_trace_def using e that by blast
    show ?thesis
    proof (cases r)
      case None
      show ?thesis
      proof (cases "lim = Some 0")
        case True
        with b f a False s None have "h = NoCallback" "evs = ?evs @ [Complete None]"
          by (auto simp: batchHandler_unfold)
        with fin[of None] None show ?thesis by simp
      next
        case F: False
        with b f a False s None have "h = CallNext None" "evs = ?evs"
          by (auto simp: batchHandler_unfold)
        with e None show ?thesis by simp
      qed
    next
      case (Some fl)
      show ?thesis
      proof (cases fl)
        case (Failed err)
        show ?thesis
        proof (cases "lim = Some 0")
          case True
          with b f a False s Some Failed have "h = NoCallback" "evs = ?evs @ [Complete (Some err)]"
            by (auto simp: batchHandler_unfold)
          with fin[of "Some err"] Some Failed show ?thesis by simp
        next
          case F: False
          with b f a False s Some Failed have "h = CallNext (Some err)" "evs = ?evs"
            by (auto simp: batchHandler_unfold)
          with e Some Failed show ?thesis by simp
        qed
      next
        case (Threw err)
        with b f a False s Some have "h = Escaped err" "evs = ?evs"
          by (auto simp: batchHandler_unfold)
        with e Some Threw show ?thesis by simp
      qed
    qed
  qed
qed

lemma nextBatch_ended:
  fixes db :: "('k, 'v, 'd, 'w, 'y) store_scheme" and st :: "'w mstate"
  assumes ok: "handler_ok handler"
  shows "nextBatch fuel db pageSize handler ps st = (fin, st', evs) \<Longrightarrow>
     (case fin of OutOfFuel \<Rightarrow> ended None evs | Finished \<Rightarrow> finished_trace evs
      | Crashed e \<Rightarrow> ended (Some (Threw e)) evs)"
proof (induction fuel arbitrary: ps st fin st' evs)
  case 0 then show ?case by simp
next
  case (Suc fuel)
  obtain v w where q: "db_view db ps (world st) = (v, w)" by (cases "db_view db ps (world st)")
  show ?case
  proof (cases v)
    case (Inl err)
    have "ended (map_option Failed (Some err)) [Called (View ps) (Some (Failed err))]"
      by (simp add: aborted_single)
    then have "finished_trace ([Called (View ps) (Some (Failed err))] @ [Complete (Some err)])"
      unfolding finished_trace_def by blast
    with q Inl Suc.prems show ?thesis by auto
  next
    case (Inr body_rows)
    obtain h st1 evs1 where hd: "handler (take pageSize body_rows) (st\<lparr>world := w\<rparr>) = (h, st1, evs1)"
      using prod_cases3 by blast
    from ok hd have hk: "case h of CallNext r \<Rightarrow> ended (map_option Failed r) evs1
        | NoCallback \<Rightarrow> finished_trace evs1 | Escaped e \<Rightarrow> ended (Some (Threw e)) evs1"
      unfolding handler_ok_def by blast
    let ?pre = "[Called (View ps) None, PageHandler (take pageSize body_rows)]"
    have pre: "noComplete ?pre" "clean ?pre" by simp_all
    show ?thesis
    proof (cases h)
      case NoCallback
      with hk obtain p r where p: "evs1 = p @ [Complete r]" "ended (map_option Failed r) p"
        unfolding finished_trace_def by auto
      from ended_append[OF pre p(2)] have "finished_trace (?pre @ evs1)"
        unfolding finished_trace_def p(1) by (metis append.assoc)
      with q Inr hd NoCallback Suc.prems show ?thesis by auto
    next
      case (Escaped e)
      with hk have "ended (Some (Threw e)) evs1" by simp
      from ended_append[OF pre this] q Inr hd Escaped Suc.prems show ?thesis by auto
    next
      case (CallNext r)
      with hk have er: "ended (map_option Failed r) evs1" by simp
      show ?thesis
      proof (cases r)
        case (Some err)
        from ended_append[OF pre er] have "finished_trace ((?pre @ evs1) @ [Complete r])"
          unfolding finished_trace_def by blast
        with q Inr hd CallNext Some Suc.prems show ?thesis by auto
      next
        case None
        show ?thesis
        proof (cases "pageSize < length body_rows")
          case False
          from ended_append[OF pre er] have "finished_trace ((?pre @ evs1) @ [Complete r])"
            unfolding finished_trace_def by blast
          with q Inr hd CallNext None False Suc.prems show ?thesis by auto
        next
          case True
          obtain f2 st2 evs2 where n: "nextBatch fuel db pageSize handler (advance ps (body_rows ! pageSize)) st1 = (f2, st2, evs2)"
            using prod_cases3 by blast
          note ih = Suc.IH[OF n]
          have e0: "noComplete (?pre @ evs1)" "clean (?pre @ evs1)" using er None by auto
          let ?all = "Called (View ps) None # PageHandler (take pageSize body_rows) # evs1 @ evs2"
          have eq: "(?pre @ evs1) @ evs2 = ?all" by simp
          have "case f2 of OutOfFuel \<Rightarrow> ended None ?all | Finished \<Rightarrow> finished_trace ?all
                | Crashed e \<Rightarrow> ended (Some (Threw e)) ?all"
          proof (cases f2)
            case OutOfFuel
            with ih e0 show ?thesis by auto
          next
            case (Crashed e)
            with ih have "ended (Some (Threw e)) evs2" by simp
            from ended_append[OF e0 this] Crashed eq show ?thesis by simp
          next
            case Finished
            with ih obtain p r2 where p: "evs2 = p @ [Complete r2]" "ended (map_option Failed r2) p"
              unfolding finished_trace_def by auto
            from ended_append[OF e0 p(2)] have "finished_trace ((?pre @ evs1) @ evs2)"
              unfolding finished_trace_def p(1) by (metis append.assoc)
            with Finished eq show ?thesis by simp
          qed
          moreover have "fin = f2" "evs = ?all"
            using q Inr hd CallNext None True n Suc.prems by auto
          ultimately show ?thesis by (cases f2) simp_all
        qed
      qed
    qed
  qed
qed

section \<open>The view scanner\<close>

lemma views_simps [simp]:
  "views [] = []" "views (x # xs) = viewOf x @ views xs" "views (xs @ ys) = views xs @ views ys"
  by (simp_all add: views_def)

lemma pages_simps [simp]:
  "pages [] = []" "pages (x # xs) = pageOf x @ pages xs" "pages (xs @ ys) = pages xs @ pages ys"
  by (simp_all add: pages_def)

lemma advance_limit [simp]: "limit (advance ps next) = limit ps"
  by (simp add: advance_def Let_def)

lemma cursor_moves:
  fixes pre :: "('k::linorder, 'v) row list"
  assumes ord: "view_order (pre @ next # post)"
  shows "filter (at_or_after (advance ps next)) (pre @ next # post) = next # post"
proof -
  from ord have s: "sorted_wrt cursor_less (pre @ next # post)"
    and ids: "\<forall>r \<in> set (pre @ next # post). row_id r \<noteq> Some []"
    by (auto simp: view_order_def list_all_iff)
  have tr: "truthy_id (row_id r) = (row_id r \<noteq> None)" if "r \<in> set (pre @ next # post)" for r
    using ids that by (auto simp: truthy_id_def split: option.splits)
  have before: "\<not> at_or_after (advance ps next) r" if "r \<in> set pre" for r
  proof -
    from s that have "cursor_less r next" by (auto simp: sorted_wrt_append)
    then show ?thesis using tr[of "next"]
      by (auto simp: cursor_less_def at_or_after_def advance_def Let_def split: option.splits)
  qed
  have self: "at_or_after (advance ps next) next" using tr[of "next"]
    by (auto simp: at_or_after_def advance_def Let_def split: option.splits)
  have after: "at_or_after (advance ps next) r" if "r \<in> set post" for r
  proof -
    from s that have "cursor_less next r" by (auto simp: sorted_wrt_append)
    then show ?thesis using tr[of "next"]
      by (auto simp: cursor_less_def at_or_after_def advance_def Let_def split: option.splits)
  qed
  have "filter (at_or_after (advance ps next)) pre = []" using before by (simp add: filter_empty_conv)
  moreover have "filter (at_or_after (advance ps next)) post = post" using after by simp
  ultimately show ?thesis using self by simp
qed

lemma ceil_step:
  fixes n p :: nat
  assumes "0 < p" "p < n"
  shows "max 1 ((n + p - 1) div p) = Suc (max 1 ((n - p + p - 1) div p))"
proof -
  have "(n - 1 + p) div p = Suc ((n - 1) div p)"
    using assms(1) div_add_self2[of p "n - 1"] by simp
  moreover have "n + p - 1 = n - 1 + p" using assms by arith
  ultimately have a: "(n + p - 1) div p = Suc ((n - 1) div p)" by (simp only:)
  from assms have "p \<le> n - 1" by arith
  then have "0 < (n - 1) div p" using assms(1) by (simp add: div_greater_zero_iff)
  then have b: "max 1 ((n - 1) div p) = (n - 1) div p" by arith
  have c: "n - p + p - 1 = n - 1" using assms by arith
  show ?thesis unfolding a c b by simp
qed

lemma not_scan_projections:
  "list_all (\<lambda>ev. \<not> isScan ev \<and> Q ev) evs \<Longrightarrow>
     views evs = [] \<and> pages evs = [] \<and> noComplete evs \<and> list_all (\<lambda>ev. Q ev \<or> isScan ev) evs"
proof (induction evs)
  case Nil then show ?case by (simp add: views_def pages_def)
next
  case (Cons ev evs)
  then show ?case by (cases ev rule: isScan.cases) (auto simp: views_def pages_def)
qed

lemma ceil_small:
  fixes n p :: nat
  assumes "0 < p" "n \<le> p"
  shows "max 1 ((n + p - 1) div p) = 1"
proof (cases "n = 0")
  case True
  then have "(n + p - 1) div p = 0" using assms(1) by simp
  then show ?thesis by simp
next
  case False
  have "(n - 1 + p) div p = Suc ((n - 1) div p)"
    using assms(1) div_add_self2[of p "n - 1"] by simp
  moreover have "n + p - 1 = n - 1 + p" using False by arith
  moreover have "(n - 1) div p = 0" using False assms by simp
  ultimately have "(n + p - 1) div p = 1" by (simp only: One_nat_def)
  then show ?thesis by simp
qed

lemma nextBatch_scan:
  fixes db :: "('k::linorder, 'v, 'd, 'w, 'y) store_scheme" and st :: "'w mstate"
  assumes srv: "serves rows db" and ord: "view_order rows" and P: "0 < P"
    and q: "quiet_on I Q handler"
  shows "I st \<Longrightarrow> rows = seen @ rest \<Longrightarrow> limit ps = Some (P + 1) \<Longrightarrow>
     filter (at_or_after ps) rows = rest \<Longrightarrow> length rest div P < fuel \<Longrightarrow>
     nextBatch fuel db P handler ps st = (fin, st', evs) \<Longrightarrow>
     fin = Finished \<and> concat (pages evs) = rest \<and>
     map (\<lambda>(ps, out). (limit ps, out)) (views evs)
       = replicate (max 1 ((length rest + P - 1) div P)) (Some (P + 1), None) \<and>
     list_all (\<lambda>p. length p \<le> P) (pages evs) \<and>
     list_all (\<lambda>ev. Q ev \<or> isScan ev) evs \<and>
     (\<exists>pre. evs = pre @ [Complete None] \<and> noComplete pre)"
proof (induction fuel arbitrary: seen rest ps st fin st' evs)
  case 0 then show ?case by simp
next
  case (Suc fuel)
  have v: "db_view db ps (world st) = (Inr (take (P + 1) rest), world st)"
    using srv Suc.prems(3,4) by (simp add: serves_def couch_view_def)
  let ?page = "take P rest"
  have pg: "take P (take (P + 1) rest) = ?page" by (simp add: min_def)
  obtain h st1 evs1 where hd: "handler ?page (st\<lparr>world := world st\<rparr>) = (h, st1, evs1)"
    using prod_cases3 by blast
  have h0: "h = CallNext None \<and> list_all (\<lambda>ev. \<not> isScan ev \<and> Q ev) evs1 \<and> I st1"
    using q[unfolded quiet_on_def, rule_format, of "st\<lparr>world := world st\<rparr>" ?page] hd Suc.prems(1)
    by simp
  then have hq: "h = CallNext None" "views evs1 = []" "pages evs1 = []" "noComplete evs1"
    and hQ: "list_all (\<lambda>ev. Q ev \<or> isScan ev) evs1" and hI: "I st1"
    using not_scan_projections[of Q evs1] by simp_all
  show ?case
  proof (cases "P < length rest")
    case False
    then have len: "length rest \<le> P" by simp
    from False have nl: "\<not> P < length (take (P + 1) rest)" by simp
    have e: "fin = Finished" "evs = Called (View ps) None # PageHandler ?page # evs1 @ [Complete None]"
      using Suc.prems(6) v hd hq(1) nl by (simp_all add: pg)
    have "evs = (Called (View ps) None # PageHandler ?page # evs1) @ [Complete None]"
      using e(2) by simp
    moreover have "noComplete (Called (View ps) None # PageHandler ?page # evs1)"
      using hq(4) by simp
    ultimately have ex: "\<exists>pre. evs = pre @ [Complete None] \<and> noComplete pre" by blast
    from e hq hQ len Suc.prems(3) ceil_small[OF P len] ex show ?thesis by simp
  next
    case True
    then have lt: "P < length (take (P + 1) rest)" by simp
    let ?next = "rest ! P"
    have nx: "take (P + 1) rest ! P = ?next" by simp
    let ?rest' = "drop P rest"
    have split: "rest = ?page @ ?next # drop (Suc P) rest"
      using True by (rule id_take_nth_drop)
    have rows: "rows = (seen @ ?page) @ ?next # drop (Suc P) rest"
      using Suc.prems(2) by (simp add: split[symmetric])
    have cur: "filter (at_or_after (advance ps ?next)) rows = ?rest'"
      using cursor_moves[of "seen @ ?page" ?next "drop (Suc P) rest" ps] ord rows True
      by (simp add: Cons_nth_drop_Suc)
    have rows': "rows = (seen @ ?page) @ ?rest'" using Suc.prems(2) by simp
    have fuel: "length ?rest' div P < fuel"
    proof -
      have "length rest div P = Suc ((length rest - P) div P)"
        by (rule le_div_geq) (use True P in simp_all)
      with Suc.prems(5) show ?thesis by simp
    qed
    obtain f2 st2 evs2 where n: "nextBatch fuel db P handler (advance ps ?next) st1 = (f2, st2, evs2)"
      using prod_cases3 by blast
    have lim: "limit (advance ps ?next) = Some (P + 1)" using Suc.prems(3) by simp
    note ih = Suc.IH[OF hI rows' lim cur fuel n]
    have e: "fin = f2" "evs = Called (View ps) None # PageHandler ?page # evs1 @ evs2"
      using Suc.prems(6) v hd hq(1) lt n by (simp_all add: pg nx)
    from ih obtain pre where pre: "evs2 = pre @ [Complete None]" "noComplete pre" by blast
    have "evs = (Called (View ps) None # PageHandler ?page # evs1 @ pre) @ [Complete None]"
      using e(2) pre(1) by simp
    moreover have "noComplete (Called (View ps) None # PageHandler ?page # evs1 @ pre)"
      using hq(4) pre(2) by simp
    ultimately have ex: "\<exists>pre. evs = pre @ [Complete None] \<and> noComplete pre" by blast
    have cnt: "max 1 ((length rest + P - 1) div P) = Suc (max 1 ((length ?rest' + P - 1) div P))"
      using ceil_step[OF P True] by simp
    have cc: "concat (pages evs) = rest" using e(2) hq ih by simp
    have vv: "map (\<lambda>(ps, out). (limit ps, out)) (views evs)
       = replicate (max 1 ((length rest + P - 1) div P)) (Some (P + 1), None)"
      unfolding cnt using e(2) hq ih Suc.prems(3) by simp
    have ll: "list_all (\<lambda>p. length p \<le> P) (pages evs)" using e(2) hq ih by simp
    have ff: "fin = Finished" using e(1) ih by simp
    have qq: "list_all (\<lambda>ev. Q ev \<or> isScan ev) evs" using e(2) hQ ih by simp
    from ff cc vv ll qq ex show ?thesis by simp
  qed
qed

lemma serves_view_db: "serves rows (view_db rows)"
  by (simp add: serves_def view_db_def)

lemma numbered_order: "view_order (map numbered_row [0..<n])"
proof -
  have "sorted_wrt (\<lambda>i j. cursor_less (numbered_row i) (numbered_row j)) [0..<n]"
    by (rule sorted_wrt_mono_rel[of _ "(<)"]) (auto simp: cursor_less_def numbered_row_def)
  then show ?thesis
    by (simp add: view_order_def sorted_wrt_map list_all_iff numbered_row_def)
qed

lemma page_counter_quiet: "quiet page_counter"
  by (simp add: quiet_def quiet_on_def page_counter_def)

section \<open>The row budget over a whole scan\<close>

lemma piped_simps [simp]:
  "piped [] = []" "piped (x # xs) = concat (subBatchOf x) @ piped xs"
  "piped (xs @ ys) = piped xs @ piped ys"
  by (simp_all add: piped_def)

lemma piped_none: "list_all (\<lambda>ev. subBatchOf ev = []) evs \<Longrightarrow> piped evs = []"
  by (induction evs) auto

lemma calls_no_subBatch: "list_all isCalled evs \<Longrightarrow> list_all (\<lambda>ev. subBatchOf ev = []) evs"
proof (induction evs)
  case Nil then show ?case by simp
next
  case (Cons ev evs) then show ?case by (cases ev) auto
qed

lemma processBatch_piped:
  fixes db :: "('k, 'v, 'd, 'w, 'y) store_scheme" and opts :: "('k, 'v, 'd, 'w, 'z) options_scheme"
    and st :: "'w mstate"
  assumes p: "processBatch db opts batch retry st = (res, st', evs)"
  shows "piped evs = []"
proof (rule piped_none, rule processBatch_all[OF _ _ _ _ _ p])
  show "set batch \<subseteq> set batch" by simp
next
  fix batch' w r w' and evs :: "('k, 'v, 'd) event list"
  assume "attempt db opts batch' w = (r, w', evs)"
  from calls_no_subBatch[OF attempt_calls[OF this]]
  show "list_all (\<lambda>ev. subBatchOf ev = []) evs" .
qed simp_all

lemma attempt_all:
  fixes db :: "('k, 'v, 'd, 'w, 'y) store_scheme" and opts :: "('k, 'v, 'd, 'w, 'z) options_scheme"
    and evs :: "('k, 'v, 'd) event list"
  assumes a: "attempt db opts batch w = (r, w', evs)"
    and q: "\<And>ks out. Q (Called (Fetch ks) out)" "\<And>row docs out. Q (Called (ChangesCb row docs) out)"
      "\<And>ds out. Q (Called (Bulk ds) out)"
  shows "list_all Q evs"
proof -
  obtain r1 w1 and evs1 :: "('k, 'v, 'd) event list"
    where f: "fetchExtraDocs db batch w = (r1, w1, evs1)"
    using prod_cases3 by blast
  have e1: "list_all Q evs1"
    using f q(1) by (auto simp: fetchExtraDocs_def Let_def split: if_splits prod.splits sum.splits)
  show ?thesis
  proof (cases r1)
    case (Inl e)
    with a f e1 show ?thesis by (auto simp: attempt_def)
  next
    case (Inr ds)
    obtain r2 w2 and evs2 :: "('k, 'v, 'd) event list"
      where rc: "runChanges db opts batch ds w1 = (r2, w2, evs2)"
      using prod_cases3 by blast
    obtain r3 w3 and evs3 :: "('k, 'v, 'd) event list"
      where s: "series (\<lambda>(row, docs). ChangesCb row docs) (changesFn opts)
             (map (\<lambda>i. (batch ! i, docsAt ds i)) [0..<length batch]) w1 = (r3, w3, evs3)"
      using prod_cases3 by blast
    have "list_all Q evs3"
      by (rule series_all[OF s]) (auto simp: q(2) split: prod.splits)
    with rc s q(3) have "list_all Q evs2"
      by (auto simp: runChanges_def Let_def split: prod.splits sum.splits)
    with a f Inr rc e1 show ?thesis by (auto simp: attempt_def)
  qed
qed

lemma getExtraKeyInfo_no_scan:
  fixes db :: "('k, 'v, 'd, 'w, 'y) store_scheme" and opts :: "('k, 'v, 'd, 'w, 'z) options_scheme"
    and st :: "'w mstate"
  assumes g: "getExtraKeyInfo db opts batch st = (res, st', evs)"
  shows "list_all (\<lambda>ev. \<not> isScan ev) evs"
proof -
  obtain r1 w1 and evs1 :: "('k, 'v, 'd) event list"
    where s: "series FetchKeysCb (fetchKeysFn opts) batch (world st) = (r1, w1, evs1)"
    using prod_cases3 by blast
  have e1: "list_all (\<lambda>ev. \<not> isScan ev) evs1" by (rule series_all[OF s]) simp
  show ?thesis
  proof (cases r1)
    case (Inl e)
    with g s e1 show ?thesis by (auto simp: getExtraKeyInfo_def)
  next
    case (Inr keysByRow)
    let ?b = "map (\<lambda>(row, keys). row\<lparr>extraKeys := normalizeKeys keys\<rparr>) (zip batch keysByRow)"
    obtain r2 st2 evs2 where p: "processBatch db opts ?b 0 (st\<lparr>world := w1\<rparr>) = (r2, st2, evs2)"
      using prod_cases3 by blast
    have "list_all (\<lambda>ev. \<not> isScan ev) evs2"
    proof (rule processBatch_all[OF _ _ _ _ _ p])
      show "set ?b \<subseteq> set ?b" by simp
    next
      fix batch' w r w' and evs :: "('k, 'v, 'd) event list"
      assume a: "attempt db opts batch' w = (r, w', evs)"
      show "list_all (\<lambda>ev. \<not> isScan ev) evs" by (rule attempt_all[OF a]) simp_all
    qed simp_all
    with g s Inr p e1 show ?thesis by (auto simp: getExtraKeyInfo_def)
  qed
qed

lemma processBatch_limit:
  fixes db :: "('k, 'v, 'd, 'w, 'y) store_scheme" and opts :: "('k, 'v, 'd, 'w, 'z) options_scheme"
    and st :: "'w mstate"
  shows "processBatch db opts batch retry st = (res, st', evs) \<Longrightarrow> limit_left st' = limit_left st"
proof (induction batch retry st arbitrary: res st' evs rule: processBatch_induct[where db=db and opts=opts])
  case (step batch retry st)
  obtain r w evs0 where a: "attempt db opts batch (world st) = (r, w, evs0)"
    by (cases "attempt db opts batch (world st)") auto
  show ?case
  proof (cases r)
    case (Inl err)
    with a step.prems show ?thesis
      by (subst (asm) processBatch_unfold) auto
  next
    case (Inr results)
    show ?thesis
    proof (cases "conflictRows batch results \<noteq> [] \<and> retry < retries opts")
      case False
      with a Inr step.prems show ?thesis
        by (subst (asm) processBatch_unfold) (auto simp: Let_def split: if_splits)
    next
      case True
      let ?st1 = "st\<lparr>world := w, realcurrent := realcurrent st + (int (length batch) - int (length (conflictRows batch results)))\<rparr>"
      obtain r2 st2 evs2 where p: "processBatch db opts (conflictRows batch results) (retry + 1) ?st1 = (r2, st2, evs2)"
        by (cases "processBatch db opts (conflictRows batch results) (retry + 1) ?st1") auto
      have ih: "limit_left st2 = limit_left ?st1"
        using step.IH[OF a[unfolded Inr] _ _ p] True by simp
      from a Inr step.prems True p ih show ?thesis
        by (subst (asm) processBatch_unfold) (auto simp: Let_def)
    qed
  qed
qed

lemma getExtraKeyInfo_piped:
  fixes db :: "('k, 'v, 'd, 'w, 'y) store_scheme" and opts :: "('k, 'v, 'd, 'w, 'z) options_scheme"
    and st :: "'w mstate"
  assumes g: "getExtraKeyInfo db opts batch st = (res, st', evs)"
  shows "piped evs = batch \<and> limit_left st' = limit_left st"
proof -
  obtain r1 w1 and evs1 :: "('k, 'v, 'd) event list"
    where s: "series FetchKeysCb (fetchKeysFn opts) batch (world st) = (r1, w1, evs1)"
    using prod_cases3 by blast
  have e1: "piped evs1 = []" by (rule piped_none[OF calls_no_subBatch[OF series_calls[OF s]]])
  show ?thesis
  proof (cases r1)
    case (Inl e)
    with g s e1 show ?thesis by (auto simp: getExtraKeyInfo_def)
  next
    case (Inr keysByRow)
    let ?b = "map (\<lambda>(row, keys). row\<lparr>extraKeys := normalizeKeys keys\<rparr>) (zip batch keysByRow)"
    obtain r2 st2 evs2 where p: "processBatch db opts ?b 0 (st\<lparr>world := w1\<rparr>) = (r2, st2, evs2)"
      using prod_cases3 by blast
    have "limit_left st2 = limit_left (st\<lparr>world := w1\<rparr>)" by (rule processBatch_limit[OF p])
    with processBatch_piped[OF p] g s Inr p e1 show ?thesis by (auto simp: getExtraKeyInfo_def)
  qed
qed


lemma subBatches_piped:
  fixes db :: "('k, 'v, 'd, 'w, 'y) store_scheme" and opts :: "('k, 'v, 'd, 'w, 'z) options_scheme"
    and st :: "'w mstate"
  shows "(\<forall>batch st. fst (getExtraKeyInfo db opts batch st) = None) \<Longrightarrow>
     subBatches db opts rows count st = (res, st', evs) \<Longrightarrow>
     res = None \<and> piped evs = drop count rows \<and> limit_left st' = limit_left st \<and>
     list_all (\<lambda>ev. \<not> isScan ev) evs"
proof (induction db opts rows count st arbitrary: res st' evs rule: subBatches.induct)
  case (1 db opts rows count st)
  show ?case
  proof (cases "count < length rows")
    case False
    with "1.prems" show ?thesis by (subst (asm) subBatches.simps) auto
  next
    case True
    let ?b = "take (batchSizeOf opts) (drop count rows)"
    obtain r st1 evs1 where g: "getExtraKeyInfo db opts ?b st = (r, st1, evs1)"
      using prod_cases3 by blast
    from "1.prems"(1) g have None: "r = None" by (metis fst_conv)
    note e1 = getExtraKeyInfo_piped[OF g]
    have n1: "list_all (\<lambda>ev. \<not> isScan ev) evs1" by (rule getExtraKeyInfo_no_scan[OF g])
    obtain r2 st2 evs2 where s: "subBatches db opts rows (count + batchSizeOf opts) st1 = (r2, st2, evs2)"
      using prod_cases3 by blast
    note ih = "1.IH"[OF True g[symmetric] None refl "1.prems"(1) s]
    have "?b @ drop (count + batchSizeOf opts) rows = drop count rows"
      by (metis append_take_drop_id drop_drop add.commute)
    with ih e1 n1 True g None s "1.prems"(2) show ?thesis
      by (subst (asm) subBatches.simps) auto
  qed
qed

lemma applyLimit_cut:
  "l \<le> length rows \<Longrightarrow> applyLimit (Some (int l)) rows = (take l rows, Some 0)"
  by (auto simp: applyLimit_def js_slice_def Let_def min_def)

lemma applyLimit_keep:
  "length rows < l \<Longrightarrow> applyLimit (Some (int l)) rows = (rows, Some (int (l - length rows)))"
  by (auto simp: applyLimit_def Let_def)

lemma ceil_one:
  fixes l p :: nat
  assumes "0 < l" "l \<le> p"
  shows "(l + p - 1) div p = 1"
proof -
  have "(l - 1 + p) div p = Suc ((l - 1) div p)"
    using assms div_add_self2[of p "l - 1"] by simp
  moreover have "l + p - 1 = l - 1 + p" using assms by arith
  moreover have "(l - 1) div p = 0" using assms by simp
  ultimately show ?thesis by (simp only: One_nat_def)
qed

lemma ceil_more:
  fixes l p :: nat
  assumes "0 < p" "p < l"
  shows "(l + p - 1) div p = Suc ((l - p + p - 1) div p)"
proof -
  have "(l - 1 + p) div p = Suc ((l - 1) div p)"
    using assms div_add_self2[of p "l - 1"] by simp
  moreover have "l + p - 1 = l - 1 + p" using assms by arith
  moreover have "l - p + p - 1 = l - 1" using assms by arith
  ultimately show ?thesis by (simp only:)
qed

lemma nextBatch_budget:
  fixes db :: "('k::linorder, 'v, 'd, 'w, 'y) store_scheme"
    and opts :: "('k, 'v, 'd, 'w, 'z) options_scheme" and st :: "'w mstate"
  assumes srv: "serves rows db" and ord: "view_order rows" and P: "0 < P"
    and ok: "\<forall>batch st. fst (getExtraKeyInfo db opts batch st) = None"
    and nf: "sourceFilter opts = None"
  shows "limit_left st = Some (int l) \<Longrightarrow> 0 < l \<Longrightarrow> l < length rest \<Longrightarrow>
     rows = seen @ rest \<Longrightarrow> limit ps = Some (P + 1) \<Longrightarrow>
     filter (at_or_after ps) rows = rest \<Longrightarrow> l div P < fuel \<Longrightarrow>
     nextBatch fuel db P (batchHandler db opts) ps st = (fin, st', evs) \<Longrightarrow>
     fin = Finished \<and> piped evs = take l rest \<and>
     length (views evs) = (l + P - 1) div P \<and>
     limit_left st' = Some 0 \<and>
     (\<exists>pre. evs = pre @ [Complete None] \<and> noComplete pre)"
proof (induction fuel arbitrary: seen rest ps st l fin st' evs)
  case 0 then show ?case by simp
next
  case (Suc fuel)
  have v: "db_view db ps (world st) = (Inr (take (P + 1) rest), world st)"
    using srv Suc.prems(5,6) by (simp add: serves_def couch_view_def)
  let ?page = "take P rest"
  have pg: "take P (take (P + 1) rest) = ?page" by (simp add: min_def)
  have ne: "?page \<noteq> []" using P Suc.prems(2,3) by auto
  show ?case
  proof (cases "l \<le> length ?page")
    case True
    have cut: "applyLimit (Some (int l)) ?page = (take l ?page, Some 0)"
      by (rule applyLimit_cut[OF True])
    have lP: "l \<le> P" using True by simp
    have tl: "take l ?page = take l rest" using lP by (simp add: min_absorb1)
    have ne2: "take l rest \<noteq> []" using Suc.prems(2,3) by auto
    let ?st2 = "st\<lparr>batch_no := Suc (batch_no st), limit_left := Some 0\<rparr>"
    obtain r st3 evs2 where s: "subBatches db opts (take l rest) 0 ?st2 = (r, st3, evs2)"
      using prod_cases3 by blast
    from subBatches_piped[OF ok s] have sp: "r = None" "piped evs2 = take l rest"
      "limit_left st3 = Some 0" "list_all (\<lambda>ev. \<not> isScan ev) evs2" by simp_all
    from not_scan_projections[of "\<lambda>ev. True" evs2] sp(4)
    have pr: "views evs2 = []" "noComplete evs2" by simp_all
    have h: "batchHandler db opts ?page (st\<lparr>world := world st\<rparr>)
               = (NoCallback, st3, Tick 0 (realcurrent st) # evs2 @ [Complete None])"
      using nf Suc.prems(1) cut tl ne2 s sp(1) by (simp add: batchHandler_unfold)
    have e: "fin = Finished" "st' = st3"
      "evs = Called (View ps) None # PageHandler ?page # Tick 0 (realcurrent st) # evs2 @ [Complete None]"
      using Suc.prems(8) v h by (simp_all add: pg)
    have "evs = (Called (View ps) None # PageHandler ?page # Tick 0 (realcurrent st) # evs2) @ [Complete None]"
      using e(3) by simp
    moreover have "noComplete (Called (View ps) None # PageHandler ?page # Tick 0 (realcurrent st) # evs2)"
      using pr(2) by simp
    ultimately have ex: "\<exists>pre. evs = pre @ [Complete None] \<and> noComplete pre" by blast
    from e sp pr ceil_one[OF Suc.prems(2) lP] ex show ?thesis by simp
  next
    case False
    then have big: "length ?page < l" by (simp only: not_le)
    have full: "P < length rest" using big Suc.prems(3) by (simp add: min_def split: if_splits)
    then have lp: "length ?page = P" by simp
    have Pl: "P < l" using big lp by simp
    have keep: "applyLimit (Some (int l)) ?page = (?page, Some (int (l - P)))"
      using applyLimit_keep[OF big] lp by simp
    have nz: "Some (int (l - P)) \<noteq> Some 0" using Pl by simp
    let ?st2 = "st\<lparr>batch_no := Suc (batch_no st), limit_left := Some (int (l - P))\<rparr>"
    obtain r st3 evs2 where s: "subBatches db opts ?page 0 ?st2 = (r, st3, evs2)"
      using prod_cases3 by blast
    from subBatches_piped[OF ok s] have sp: "r = None" "piped evs2 = ?page"
      "limit_left st3 = Some (int (l - P))" "list_all (\<lambda>ev. \<not> isScan ev) evs2" by simp_all
    from not_scan_projections[of "\<lambda>ev. True" evs2] sp(4)
    have pr: "views evs2 = []" "noComplete evs2" by simp_all
    have h: "batchHandler db opts ?page (st\<lparr>world := world st\<rparr>)
               = (CallNext None, st3, Tick 0 (realcurrent st) # evs2)"
      using nf Suc.prems(1) keep nz ne s sp(1) by (simp add: batchHandler_unfold)
    have lt: "P < length (take (P + 1) rest)" using full by simp
    let ?next = "rest ! P"
    have nx: "take (P + 1) rest ! P = ?next" by simp
    let ?rest' = "drop P rest"
    have split: "rest = ?page @ ?next # drop (Suc P) rest"
      using full by (rule id_take_nth_drop)
    have rows: "rows = (seen @ ?page) @ ?next # drop (Suc P) rest"
      using Suc.prems(4) by (simp add: split[symmetric])
    have cur: "filter (at_or_after (advance ps ?next)) rows = ?rest'"
      using cursor_moves[of "seen @ ?page" ?next "drop (Suc P) rest" ps] ord rows full
      by (simp add: Cons_nth_drop_Suc)
    have rows': "rows = (seen @ ?page) @ ?rest'" using Suc.prems(4) by simp
    have l': "0 < l - P" "l - P < length ?rest'" using Pl Suc.prems(3) by simp_all
    have fuel: "(l - P) div P < fuel"
    proof -
      have "l div P = Suc ((l - P) div P)"
        by (rule le_div_geq) (use Pl P in simp_all)
      with Suc.prems(7) show ?thesis by simp
    qed
    obtain f2 st2 evs' where n: "nextBatch fuel db P (batchHandler db opts) (advance ps ?next) st3 = (f2, st2, evs')"
      using prod_cases3 by blast
    have lim: "limit (advance ps ?next) = Some (P + 1)" using Suc.prems(5) by simp
    note ih = Suc.IH[OF sp(3) l' rows' lim cur fuel n]
    have e: "fin = f2" "st' = st2"
      "evs = Called (View ps) None # PageHandler ?page # Tick 0 (realcurrent st) # evs2 @ evs'"
      using Suc.prems(8) v h lt n by (simp_all add: pg nx)
    from ih obtain pre where pre: "evs' = pre @ [Complete None]" "noComplete pre" by blast
    have "evs = (Called (View ps) None # PageHandler ?page # Tick 0 (realcurrent st) # evs2 @ pre) @ [Complete None]"
      using e(3) pre(1) by simp
    moreover have "noComplete (Called (View ps) None # PageHandler ?page # Tick 0 (realcurrent st) # evs2 @ pre)"
      using pr(2) pre(2) by simp
    ultimately have ex: "\<exists>pre. evs = pre @ [Complete None] \<and> noComplete pre" by blast
    have tk: "?page @ take (l - P) ?rest' = take l rest"
      using Pl take_add[of P "l - P" rest] by simp
    have pp: "piped evs = take l rest" using e(3) sp(2) ih tk by simp
    have vv: "length (views evs) = (l + P - 1) div P"
      unfolding ceil_more[OF P Pl] using e(3) pr(1) ih by simp
    have ff: "fin = Finished" "limit_left st' = Some 0" using e(1,2) ih by simp_all
    from ff pp vv ex show ?thesis by simp
  qed
qed

text \<open>
  With a budget \<open>0 < L < N\<close>, no filter, and sub-batches that all succeed, on a store
  that serves a fixed view of \<open>N\<close> rows in view order: exactly the first \<open>L\<close> rows enter
  the pipeline, the scan stops after the page that exhausts the budget (\<open>\<lceil>L / 1000\<rceil>\<close>
  page requests) and \<open>complete()\<close> is called.
\<close>

lemma budget_exhausted_exactly:
  fixes db :: "('k::linorder, 'v, 'd, 'w, 'y) store_scheme"
    and opts :: "('k, 'v, 'd, 'w, 'z) options_scheme"
  assumes srv: "serves rows db" and ord: "view_order rows"
    and ok: "\<forall>batch st. fst (getExtraKeyInfo db opts batch st) = None"
    and nf: "sourceFilter opts = None" and np: "sourceParams opts = None"
    and lim: "row_limit opts = Some (int L)" and L: "0 < L" "L < length rows"
    and fuel: "L div 1000 < fuel"
    and run: "migrate fuel db opts w = (fin, st, evs)"
  shows "fin = Finished \<and> piped evs = take L rows \<and>
         length (views evs) = (L + 1000 - 1) div 1000 \<and>
         limit_left st = Some 0 \<and>
         (\<exists>pre. evs = pre @ [Complete None] \<and> noComplete pre)"
proof -
  let ?ps = "(emptyParams :: 'k params)\<lparr>limit := Some (1000 + 1)\<rparr>"
  have n: "nextBatch fuel db 1000 (batchHandler db opts) ?ps (initialState opts w) = (fin, st, evs)"
    using run by (simp add: migrate_def getViewInBatches_def np)
  have i: "limit_left (initialState opts w) = Some (int L)"
    by (simp add: initialState_def lim)
  have f: "filter (at_or_after ?ps) rows = rows"
    by (simp add: at_or_after_def emptyParams_def)
  have l: "limit ?ps = Some (1000 + 1)" by simp
  have r: "rows = [] @ rows" by simp
  from nextBatch_budget[OF srv ord _ ok nf i L(1) L(2) r l f fuel n]
  show ?thesis by simp
qed

section \<open>The rows and events of a page's sub-batches\<close>

lemma getExtraKeyInfo_all:
  fixes db :: "('k, 'v, 'd, 'w, 'y) store_scheme" and opts :: "('k, 'v, 'd, 'w, 'z) options_scheme"
    and st :: "'w mstate"
  assumes g: "getExtraKeyInfo db opts batch st = (res, st', evs)"
    and q: "\<And>row out. Q (Called (FetchKeysCb row) out)" "\<And>ks out. Q (Called (Fetch ks) out)"
      "\<And>row docs out. Q (Called (ChangesCb row docs) out)" "\<And>ds out. Q (Called (Bulk ds) out)"
      "\<And>b. Q (SubBatch b)" "\<And>n b rs. Q (ProcessErrors n b rs)" "\<And>s t. Q (Tick s t)"
      "\<And>row. Q (ReportFailure row (Err ''Conflict''))"
  shows "list_all Q evs"
proof -
  obtain r1 w1 and evs1 :: "('k, 'v, 'd) event list"
    where s: "series FetchKeysCb (fetchKeysFn opts) batch (world st) = (r1, w1, evs1)"
    using prod_cases3 by blast
  have e1: "list_all Q evs1" by (rule series_all[OF s]) (rule q(1))
  show ?thesis
  proof (cases r1)
    case (Inl e)
    with g s e1 q(5) show ?thesis by (auto simp: getExtraKeyInfo_def)
  next
    case (Inr keysByRow)
    let ?b = "map (\<lambda>(row, keys). row\<lparr>extraKeys := normalizeKeys keys\<rparr>) (zip batch keysByRow)"
    obtain r2 st2 evs2 where p: "processBatch db opts ?b 0 (st\<lparr>world := w1\<rparr>) = (r2, st2, evs2)"
      using prod_cases3 by blast
    have "list_all Q evs2"
    proof (rule processBatch_all[OF _ _ _ _ _ p])
      show "set ?b \<subseteq> set ?b" by simp
    next
      fix batch' w r w' and evs :: "('k, 'v, 'd) event list"
      assume a: "attempt db opts batch' w = (r, w', evs)"
      show "list_all Q evs" by (rule attempt_all[OF a]) (rule q(2) q(3) q(4))+
    qed (rule q(6) q(7) q(8))+
    with g s Inr p e1 q(5) show ?thesis by (auto simp: getExtraKeyInfo_def)
  qed
qed

lemma subBatches_all:
  fixes db :: "('k, 'v, 'd, 'w, 'y) store_scheme" and opts :: "('k, 'v, 'd, 'w, 'z) options_scheme"
    and st :: "'w mstate"
  assumes q: "\<And>row out. Q (Called (FetchKeysCb row) out)" "\<And>ks out. Q (Called (Fetch ks) out)"
      "\<And>row docs out. Q (Called (ChangesCb row docs) out)" "\<And>ds out. Q (Called (Bulk ds) out)"
      "\<And>b. Q (SubBatch b)" "\<And>n b rs. Q (ProcessErrors n b rs)" "\<And>s t. Q (Tick s t)"
      "\<And>row. Q (ReportFailure row (Err ''Conflict''))"
  shows "subBatches db opts rows count st = (res, st', evs) \<Longrightarrow> list_all Q evs"
proof (induction db opts rows count st arbitrary: res st' evs rule: subBatches.induct)
  case (1 db opts rows count st)
  show ?case
  proof (cases "count < length rows")
    case False
    with "1.prems" show ?thesis by (subst (asm) subBatches.simps) auto
  next
    case True
    obtain r st1 evs1 where g: "getExtraKeyInfo db opts (take (batchSizeOf opts) (drop count rows)) st = (r, st1, evs1)"
      using prod_cases3 by blast
    have e1: "list_all Q evs1" by (rule getExtraKeyInfo_all[OF g]) (rule q)+
    show ?thesis
    proof (cases r)
      case (Some e)
      with True g e1 "1.prems" show ?thesis by (subst (asm) subBatches.simps) auto
    next
      case None
      obtain r2 st2 evs2 where s: "subBatches db opts rows (count + batchSizeOf opts) st1 = (r2, st2, evs2)"
        using prod_cases3 by blast
      from "1.IH"[OF True g[symmetric] None refl s] e1
      have "list_all Q (evs1 @ evs2)" by simp
      with True g None s "1.prems" show ?thesis by (subst (asm) subBatches.simps) auto
    qed
  qed
qed

lemma subBatches_prefix:
  fixes db :: "('k, 'v, 'd, 'w, 'y) store_scheme" and opts :: "('k, 'v, 'd, 'w, 'z) options_scheme"
    and st :: "'w mstate"
  shows "subBatches db opts rows count st = (res, st', evs) \<Longrightarrow>
     (\<exists>m. piped evs = take m (drop count rows)) \<and> (res = None \<longrightarrow> piped evs = drop count rows)"
proof (induction db opts rows count st arbitrary: res st' evs rule: subBatches.induct)
  case (1 db opts rows count st)
  show ?case
  proof (cases "count < length rows")
    case False
    with "1.prems" show ?thesis by (subst (asm) subBatches.simps) auto
  next
    case True
    let ?n = "batchSizeOf opts"
    let ?b = "take ?n (drop count rows)"
    obtain r st1 evs1 where g: "getExtraKeyInfo db opts ?b st = (r, st1, evs1)"
      using prod_cases3 by blast
    from getExtraKeyInfo_piped[OF g] have e1: "piped evs1 = ?b" by simp
    show ?thesis
    proof (cases r)
      case (Some e)
      have "subBatches db opts rows count st = (Some e, st1, evs1)"
        by (subst subBatches.simps) (simp add: True g Some)
      with "1.prems" have "res = Some e" "evs = evs1" by simp_all
      with e1 show ?thesis by auto
    next
      case None
      obtain r2 st2 evs2 where s: "subBatches db opts rows (count + ?n) st1 = (r2, st2, evs2)"
        using prod_cases3 by blast
      note ih = "1.IH"[OF True g[symmetric] None refl s]
      have "subBatches db opts rows count st = (r2, st2, evs1 @ evs2)"
        by (subst subBatches.simps) (simp add: True g None s)
      with "1.prems" have ev: "res = r2" "evs = evs1 @ evs2" by simp_all
      have dd: "drop (count + ?n) rows = drop ?n (drop count rows)"
        by (simp add: add.commute)
      from ih obtain m where m: "piped evs2 = take m (drop ?n (drop count rows))"
        unfolding dd by blast
      have "?b @ take m (drop ?n (drop count rows)) = take (?n + m) (drop count rows)"
        by (simp add: take_add)
      with e1 m ev have ex: "\<exists>m. piped evs = take m (drop count rows)" by auto
      have ad: "?b @ drop ?n (drop count rows) = drop count rows" by (rule append_take_drop_id)
      have "piped evs = drop count rows" if "res = None"
      proof -
        from that ev ih have "piped evs2 = drop ?n (drop count rows)" unfolding dd by blast
        with e1 ev ad show ?thesis by (simp only: piped_simps)
      qed
      with ex show ?thesis by blast
    qed
  qed
qed

lemma applyLimit_take: "\<exists>m. fst (applyLimit lim rows) = take m rows"
proof (cases lim)
  case None
  then have "fst (applyLimit lim rows) = take (length rows) rows" by (simp add: applyLimit_def)
  then show ?thesis by blast
next
  case (Some l)
  show ?thesis
  proof (cases "l - int (length rows) < 0")
    case True
    with Some have "fst (applyLimit lim rows) = js_slice rows 0 (int (length rows) + (l - int (length rows)))"
      by (simp add: applyLimit_def Let_def)
    also have "\<dots> = take (nat ((if l < 0 then max (int (length rows) + l) 0 else min l (int (length rows))) - 0)) rows"
      by (simp add: js_slice_def Let_def)
    finally show ?thesis by blast
  next
    case False
    with Some have "fst (applyLimit lim rows) = take (length rows) rows"
      by (simp add: applyLimit_def Let_def)
    then show ?thesis by blast
  qed
qed

lemma ended_no_failure:
  assumes e: "ended res evs" and n: "\<forall>c e. fatal c \<longrightarrow> Called c (Some e) \<notin> set evs"
  shows "res = None"
proof (cases res)
  case None then show ?thesis .
next
  case (Some a)
  with e have "aborted a evs" by simp
  then obtain pre c where "evs = pre @ [Called c (Some a)]" "fatal c"
    unfolding aborted_def by blast
  then have "Called c (Some a) \<in> set evs" "fatal c" by simp_all
  with n show ?thesis by blast
qed

lemma filterRows_piped:
  fixes evs :: "('k, 'v, 'd) event list"
  shows "filterRows f rows w = (kept, w', evs) \<Longrightarrow> piped evs = []"
proof (induction rows arbitrary: w kept w' evs)
  case Nil then show ?case by simp
next
  case (Cons row rows)
  obtain v w1 where f: "f row w = (v, w1)" by (cases "f row w")
  obtain k2 w2 and evs2 :: "('k, 'v, 'd) event list"
    where r: "filterRows f rows w1 = (k2, w2, evs2)"
    using prod_cases3 by blast
  from Cons.IH[OF r] f r Cons.prems show ?case by (cases v) auto
qed

section \<open>Example runs\<close>

lemmas eval_defs = getExtraKeyInfo_def fetchKeysFn_def changesFn_def fetchExtraDocs_def
  runChanges_def unflatten_def docsAt_def retries_def conflictRows_def is_conflict_def
  Let_def row_a_def row_b_def flaky_db_def own_doc_opts_def start_def List.map_filter_simps
  keyed_a_def keyed_b_def

lemma flaky_once_run:
  "processBatch (flaky_db 1) (own_doc_opts RetryAbsent) [keyed_a, keyed_b] 0 start =
     (None, \<lparr>world = 2, limit_left = None, realcurrent = 2, batch_no = 0\<rparr>,
      [Called (Fetch [''a'', ''b'']) None,
       Called (ChangesCb keyed_a (Some [Some (''a'', 0)])) None,
       Called (ChangesCb keyed_b (Some [Some (''b'', 0)])) None,
       Called (Bulk [(''a'', 0), (''b'', 0)]) None,
       ProcessErrors 0 [keyed_a, keyed_b] [[Written], [Rejected ''conflict'']],
       Tick 1 1,
       Called (Fetch [''b'']) None,
       Called (ChangesCb keyed_b (Some [Some (''b'', 1)])) None,
       Called (Bulk [(''b'', 1)]) None,
       ProcessErrors 1 [keyed_b] [[Written]],
       Tick 1 2])"
  by (simp add: eval_defs processBatch.simps)

lemma flaky_always_run:
  "processBatch (flaky_db 3) (own_doc_opts (RetryNum 0)) [keyed_a, keyed_b] 0 start =
     (None, \<lparr>world = 3, limit_left = None, realcurrent = 1, batch_no = 0\<rparr>,
      [Called (Fetch [''a'', ''b'']) None,
       Called (ChangesCb keyed_a (Some [Some (''a'', 0)])) None,
       Called (ChangesCb keyed_b (Some [Some (''b'', 0)])) None,
       Called (Bulk [(''a'', 0), (''b'', 0)]) None,
       ProcessErrors 0 [keyed_a, keyed_b] [[Written], [Rejected ''conflict'']],
       Tick 1 1,
       Called (Fetch [''b'']) None,
       Called (ChangesCb keyed_b (Some [Some (''b'', 1)])) None,
       Called (Bulk [(''b'', 1)]) None,
       ProcessErrors 1 [keyed_b] [[Rejected ''conflict'']],
       Tick 0 1,
       Called (Fetch [''b'']) None,
       Called (ChangesCb keyed_b (Some [Some (''b'', 2)])) None,
       Called (Bulk [(''b'', 2)]) None,
       ProcessErrors 2 [keyed_b] [[Rejected ''conflict'']],
       Tick 0 1,
       ReportFailure keyed_b (Err ''Conflict'')])"
  by (simp add: eval_defs processBatch.simps)

lemma flaky_default_run:
  "processBatch (flaky_db 3) (own_doc_opts RetryAbsent) [keyed_a, keyed_b] 0 start =
     (None, \<lparr>world = 3, limit_left = None, realcurrent = 1, batch_no = 0\<rparr>,
      [Called (Fetch [''a'', ''b'']) None,
       Called (ChangesCb keyed_a (Some [Some (''a'', 0)])) None,
       Called (ChangesCb keyed_b (Some [Some (''b'', 0)])) None,
       Called (Bulk [(''a'', 0), (''b'', 0)]) None,
       ProcessErrors 0 [keyed_a, keyed_b] [[Written], [Rejected ''conflict'']],
       Tick 1 1,
       Called (Fetch [''b'']) None,
       Called (ChangesCb keyed_b (Some [Some (''b'', 1)])) None,
       Called (Bulk [(''b'', 1)]) None,
       ProcessErrors 1 [keyed_b] [[Rejected ''conflict'']],
       Tick 0 1,
       Called (Fetch [''b'']) None,
       Called (ChangesCb keyed_b (Some [Some (''b'', 2)])) None,
       Called (Bulk [(''b'', 2)]) None,
       ProcessErrors 2 [keyed_b] [[Rejected ''conflict'']],
       Tick 0 1,
       ReportFailure keyed_b (Err ''Conflict'')])"
  by (simp add: eval_defs processBatch.simps)

lemma broken_run:
  "migrate (Suc (Suc 0)) broken_db (own_doc_opts RetryAbsent) 0 =
     (Finished, \<lparr>world = 0, limit_left = None, realcurrent = 0, batch_no = 1\<rparr>,
      [Called (View \<lparr>limit = Some 1001, startkey = None, startkey_docid = None\<rparr>) None,
       PageHandler [row_a, row_b],
       Tick 0 0,
       SubBatch [row_a, row_b],
       Called (FetchKeysCb row_a) None,
       Called (FetchKeysCb row_b) None,
       Called (Fetch [''a'', ''b'']) None,
       Called (ChangesCb keyed_a (Some [Some (''a'', 0)])) None,
       Called (ChangesCb keyed_b (Some [Some (''b'', 0)])) None]
      @ Called (Bulk [(''a'', 0), (''b'', 0)]) (Some (Failed (Err ''down'')))
      # [Complete (Some (Err ''down''))])"
  by (simp add: migrate_def getViewInBatches_def emptyParams_def initialState_def
        batchHandler_def applyLimit_def subBatches.simps batchSizeOf_def broken_db_def
        eval_defs processBatch.simps)

lemma no_keys_run:
  "migrate (Suc (Suc 0)) (flaky_db 0) no_keys_opts 0 =
     (Finished, \<lparr>world = 1, limit_left = None, realcurrent = 2, batch_no = 1\<rparr>,
      [Called (View \<lparr>limit = Some 1001, startkey = None, startkey_docid = None\<rparr>) None,
       PageHandler [row_a, row_b],
       Tick 0 0,
       SubBatch [row_a, row_b],
       Called (FetchKeysCb row_a) None,
       Called (FetchKeysCb row_b) None,
       Called (ChangesCb row_a None) None,
       Called (ChangesCb row_b None) None,
       Called (Bulk [(''a'', 0), (''b'', 0)]) None,
       ProcessErrors 0 [row_a, row_b] [[Written], [Written]],
       Tick 2 2,
       Complete None])"
  by (simp add: migrate_def getViewInBatches_def emptyParams_def initialState_def
        batchHandler_def applyLimit_def subBatches.simps batchSizeOf_def no_keys_opts_def
        eval_defs processBatch.simps)

section \<open>The log agrees with the trace\<close>

lemma noting_pair [simp]:
  "noting mk out f a (w, log) = (case f a w of (r, w') \<Rightarrow> (r, (w', log @ [(mk a, out r)])))"
  by (simp add: noting_def)

lemma with_log_simps [simp]:
  "world (with_log st log) = (world st, log)"
  "limit_left (with_log st log) = limit_left st"
  "realcurrent (with_log st log) = realcurrent st"
  "batch_no (with_log st log) = batch_no st"
  "(with_log st log)\<lparr>world := (w, l)\<rparr> = with_log (st\<lparr>world := w\<rparr>) l"
  "(with_log st log)\<lparr>realcurrent := x\<rparr> = with_log (st\<lparr>realcurrent := x\<rparr>) log"
  "(with_log st log)\<lparr>limit_left := y\<rparr> = with_log (st\<lparr>limit_left := y\<rparr>) log"
  "(with_log st log)\<lparr>batch_no := z\<rparr> = with_log (st\<lparr>batch_no := z\<rparr>) log"
  by (simp_all add: with_log_def)

lemma without_with_log [simp]: "without_log (with_log st log) = st"
  by (simp add: with_log_def without_log_def)

lemma recording_opts_simps [simp]:
  "retries (recording_opts opts) = retries opts"
  "batchSizeOf (recording_opts opts) = batchSizeOf opts"
  "sourceParams (recording_opts opts) = sourceParams opts"
  "row_limit (recording_opts opts) = row_limit opts"
  "sourceFilter (recording_opts opts) = map_option (noting FilterCb answered) (sourceFilter opts)"
  by (simp_all add: recording_opts_def retries_def batchSizeOf_def)

lemma wrapAsync_recording:
  "wrapAsync (recording_cb mk cb) a (w, log) =
     (case wrapAsync cb a w of (r, w') \<Rightarrow> (r, (w', log @ [(mk a, replied r)])))"
  by (cases cb) (auto split: prod.splits sum.splits)

lemma series_recording:
  assumes g: "\<And>a w log. g' a (w, log) =
      (case g a w of (r, w') \<Rightarrow> (r, (w', log @ [(mk a, replied r)])))"
  shows "series mk g' xs (w, log) =
     (case series mk g xs w of (r, w', evs) \<Rightarrow> (r, (w', log @ calls evs), evs))"
proof (induction xs arbitrary: w log)
  case Nil then show ?case by simp
next
  case (Cons x xs)
  obtain v w1 where f: "g x w = (v, w1)" by (cases "g x w")
  show ?case
  proof (cases v)
    case (Inl e)
    with f show ?thesis by (simp add: g)
  next
    case (Inr y)
    obtain r2 w2 evs2 where s: "series mk g xs w1 = (r2, w2, evs2)"
      using prod_cases3 by blast
    from Cons.IH[of w1 "log @ [(mk x, None)]"] f Inr s show ?thesis
      by (cases r2) (simp_all add: g)
  qed
qed

lemma fetchExtraDocs_recording:
  "fetchExtraDocs (recording db) batch (w, log) =
     (case fetchExtraDocs db batch w of (r, w', evs) \<Rightarrow> (r, (w', log @ calls evs), evs))"
  by (simp add: fetchExtraDocs_def recording_def Let_def split: prod.splits sum.splits)

lemma runChanges_recording:
  "runChanges (recording db) (recording_opts opts) batch ds (w, log) =
     (case runChanges db opts batch ds w of (r, w', evs) \<Rightarrow> (r, (w', log @ calls evs), evs))"
proof -
  let ?xs = "map (\<lambda>i. (batch ! i, docsAt ds i)) [0..<length batch]"
  let ?mk = "\<lambda>(row, docs). ChangesCb row docs"
  have c: "changes (recording_opts opts) = recording_cb ?mk (changes opts)"
    by (simp add: recording_opts_def)
  have s: "series ?mk (changesFn (recording_opts opts)) ?xs (w, log) =
     (case series ?mk (changesFn opts) ?xs w of (r, w', evs) \<Rightarrow> (r, (w', log @ calls evs), evs))"
    unfolding changesFn_def c by (rule series_recording) (rule wrapAsync_recording)
  obtain r1 w1 evs1 where s1: "series ?mk (changesFn opts) ?xs w = (r1, w1, evs1)"
    using prod_cases3 by blast
  show ?thesis
  proof (cases r1)
    case (Inl e)
    with s s1 show ?thesis by (simp add: runChanges_def)
  next
    case (Inr cs)
    with s s1 show ?thesis
      by (simp add: runChanges_def recording_def Let_def split: prod.splits sum.splits)
  qed
qed

lemma attempt_recording:
  "attempt (recording db) (recording_opts opts) batch (w, log) =
     (case attempt db opts batch w of (r, w', evs) \<Rightarrow> (r, (w', log @ calls evs), evs))"
proof -
  obtain r1 w1 evs1 where f: "fetchExtraDocs db batch w = (r1, w1, evs1)"
    using prod_cases3 by blast
  show ?thesis
  proof (cases r1)
    case (Inl e)
    with f show ?thesis by (simp add: attempt_def fetchExtraDocs_recording)
  next
    case (Inr ds)
    obtain r2 w2 evs2 where rc: "runChanges db opts batch ds w1 = (r2, w2, evs2)"
      using prod_cases3 by blast
    with f Inr show ?thesis
      by (simp add: attempt_def fetchExtraDocs_recording runChanges_recording)
  qed
qed

lemma calls_reports [simp]: "calls (map (\<lambda>row. ReportFailure row e) rows) = []"
  by (induction rows) auto

lemma processBatch_recording:
  fixes db :: "('k, 'v, 'd, 'w, 'y) store_scheme" and opts :: "('k, 'v, 'd, 'w, 'z) options_scheme"
    and st :: "'w mstate"
  shows "processBatch (recording db) (recording_opts opts) batch retry (with_log st log) =
     (case processBatch db opts batch retry st of
        (r, st', evs) \<Rightarrow> (r, with_log st' (log @ calls evs), evs))"
proof (induction batch retry st arbitrary: log rule: processBatch_induct[where db=db and opts=opts])
  case (step batch retry st)
  obtain r w evs0 where a: "attempt db opts batch (world st) = (r, w, evs0)"
    by (cases "attempt db opts batch (world st)") auto
  show ?case
  proof (cases r)
    case (Inl err)
    with a show ?thesis
      by (subst (1 2) processBatch_unfold) (simp add: attempt_recording)
  next
    case (Inr results)
    show ?thesis
    proof (cases "conflictRows batch results \<noteq> [] \<and> retry < retries opts")
      case False
      with a Inr show ?thesis
        by (subst (1 2) processBatch_unfold) (auto simp: attempt_recording Let_def)
    next
      case True
      let ?st1 = "st\<lparr>world := w, realcurrent := realcurrent st + (int (length batch) - int (length (conflictRows batch results)))\<rparr>"
      obtain r2 st2 evs2 where p: "processBatch db opts (conflictRows batch results) (retry + 1) ?st1 = (r2, st2, evs2)"
        by (cases "processBatch db opts (conflictRows batch results) (retry + 1) ?st1") auto
      note ih = step.IH[OF a[unfolded Inr], of
          "log @ calls (evs0 @ [ProcessErrors retry batch results,
              Tick (int (length batch) - int (length (conflictRows batch results)))
                (realcurrent st + (int (length batch) - int (length (conflictRows batch results))))])"]
      from a Inr True p ih show ?thesis
        by (subst (1 2) processBatch_unfold) (simp add: attempt_recording Let_def)
    qed
  qed
qed

lemma getExtraKeyInfo_recording:
  fixes db :: "('k, 'v, 'd, 'w, 'y) store_scheme" and opts :: "('k, 'v, 'd, 'w, 'z) options_scheme"
    and st :: "'w mstate"
  shows "getExtraKeyInfo (recording db) (recording_opts opts) batch (with_log st log) =
     (case getExtraKeyInfo db opts batch st of
        (r, st', evs) \<Rightarrow> (r, with_log st' (log @ calls evs), evs))"
proof -
  let ?cb = "case fetchKeys opts of None \<Rightarrow> AsyncFn (\<lambda>key w. (Inr Absent, w)) | Some f \<Rightarrow> f"
  have c: "fetchKeysFn (recording_opts opts) = wrapAsync (recording_cb FetchKeysCb ?cb)"
    "fetchKeysFn opts = wrapAsync ?cb"
    by (simp_all add: fetchKeysFn_def recording_opts_def)
  have s: "series FetchKeysCb (fetchKeysFn (recording_opts opts)) batch (world st, log) =
     (case series FetchKeysCb (fetchKeysFn opts) batch (world st) of
        (r, w', evs) \<Rightarrow> (r, (w', log @ calls evs), evs))"
    unfolding c by (rule series_recording) (rule wrapAsync_recording)
  obtain r1 w1 and evs1 :: "('k, 'v, 'd) event list"
    where s1: "series FetchKeysCb (fetchKeysFn opts) batch (world st) = (r1, w1, evs1)"
    using prod_cases3 by blast
  show ?thesis
  proof (cases r1)
    case (Inl e)
    with s s1 show ?thesis by (simp add: getExtraKeyInfo_def)
  next
    case (Inr keysByRow)
    let ?b = "map (\<lambda>(row, keys). row\<lparr>extraKeys := normalizeKeys keys\<rparr>) (zip batch keysByRow)"
    obtain r2 st2 evs2 where p: "processBatch db opts ?b 0 (st\<lparr>world := w1\<rparr>) = (r2, st2, evs2)"
      using prod_cases3 by blast
    from processBatch_recording[of db opts ?b 0 "st\<lparr>world := w1\<rparr>" "log @ calls evs1"] s s1 Inr p
    show ?thesis by (simp add: getExtraKeyInfo_def)
  qed
qed

lemma filterRows_recording:
  fixes log :: "('k, 'v, 'd) log"
  shows "filterRows (noting FilterCb answered f) rows (w, log) =
     (case filterRows f rows w of (kept, w', evs) \<Rightarrow> (kept, (w', log @ calls evs), evs))"
proof (induction rows arbitrary: w log)
  case Nil then show ?case by simp
next
  case (Cons row rows)
  obtain v w1 where f: "f row w = (v, w1)" by (cases "f row w")
  obtain k2 w2 and evs2 :: "('k, 'v, 'd) event list"
    where r: "filterRows f rows w1 = (k2, w2, evs2)"
    using prod_cases3 by blast
  from Cons.IH[of w1 "log @ [(FilterCb row, answered v)]"] f r show ?case
    by (cases v) simp_all
qed

lemma subBatches_recording:
  fixes db :: "('k, 'v, 'd, 'w, 'y) store_scheme" and opts :: "('k, 'v, 'd, 'w, 'z) options_scheme"
    and st :: "'w mstate"
  shows "subBatches (recording db) (recording_opts opts) rows count (with_log st log) =
     (case subBatches db opts rows count st of
        (r, st', evs) \<Rightarrow> (r, with_log st' (log @ calls evs), evs))"
proof (induction db opts rows count st arbitrary: log rule: subBatches.induct)
  case (1 db opts rows count st)
  show ?case
  proof (cases "count < length rows")
    case False
    then show ?thesis by (subst (1 2) subBatches.simps) simp
  next
    case True
    obtain r st1 evs1 where g: "getExtraKeyInfo db opts (take (batchSizeOf opts) (drop count rows)) st = (r, st1, evs1)"
      using prod_cases3 by blast
    show ?thesis
    proof (cases r)
      case (Some e)
      with True g show ?thesis
        by (subst (1 2) subBatches.simps) (simp add: getExtraKeyInfo_recording)
    next
      case None
      obtain r2 st2 evs2 where s: "subBatches db opts rows (count + batchSizeOf opts) st1 = (r2, st2, evs2)"
        using prod_cases3 by blast
      from "1.IH"[OF True g[symmetric] None refl, of "log @ calls evs1"] True g None s
      show ?thesis
        by (subst (1 2) subBatches.simps) (simp add: getExtraKeyInfo_recording)
    qed
  qed
qed

lemma batchHandler_recording:
  fixes db :: "('k, 'v, 'd, 'w, 'y) store_scheme" and opts :: "('k, 'v, 'd, 'w, 'z) options_scheme"
    and st :: "'w mstate"
  shows "batchHandler (recording db) (recording_opts opts) rows0 (with_log st log) =
     (case batchHandler db opts rows0 st of
        (h, st', evs) \<Rightarrow> (h, with_log st' (log @ calls evs), evs))"
proof -
  obtain rows1 w and evs1 :: "('k, 'v, 'd) event list" where f:
    "(case sourceFilter opts of None \<Rightarrow> (rows0, world st, [])
      | Some f \<Rightarrow> filterRows f rows0 (world st)) = (rows1, w, evs1)"
    using prod_cases3 by blast
  have f': "(case sourceFilter (recording_opts opts) of None \<Rightarrow> (rows0, world (with_log st log), [])
      | Some f \<Rightarrow> filterRows f rows0 (world (with_log st log))) = (rows1, (w, log @ calls evs1), evs1)"
    using f by (cases "sourceFilter opts") (auto simp: filterRows_recording)
  obtain rows lim where a: "applyLimit (limit_left st) rows1 = (rows, lim)"
    by (cases "applyLimit (limit_left st) rows1")
  let ?st2 = "st\<lparr>batch_no := Suc (batch_no st), world := w, limit_left := lim\<rparr>"
  show ?thesis
  proof (cases "rows = []")
    case True
    with f f' a show ?thesis by (simp add: batchHandler_unfold)
  next
    case False
    obtain r st3 evs2 where s: "subBatches db opts rows 0 ?st2 = (r, st3, evs2)"
      using prod_cases3 by blast
    from subBatches_recording[of db opts rows 0 ?st2 "log @ calls evs1"] s
    have s': "subBatches (recording db) (recording_opts opts) rows 0
        (with_log ?st2 (log @ calls evs1)) = (r, with_log st3 (log @ calls evs1 @ calls evs2), evs2)"
      by simp
    from f f' a False s s' show ?thesis
      by (simp add: batchHandler_unfold split: option.splits failure.splits)
  qed
qed

lemma nextBatch_recording:
  fixes db :: "('k, 'v, 'd, 'w, 'y) store_scheme" and st :: "'w mstate"
  assumes h: "\<And>rows st log. handler' rows (with_log st log) =
      (case handler rows st of (r, st', evs) \<Rightarrow> (r, with_log st' (log @ calls evs), evs))"
  shows "nextBatch fuel (recording db) pageSize handler' ps (with_log st log) =
     (case nextBatch fuel db pageSize handler ps st of
        (fin, st', evs) \<Rightarrow> (fin, with_log st' (log @ calls evs), evs))"
proof (induction fuel arbitrary: ps st log)
  case 0 then show ?case by simp
next
  case (Suc fuel)
  obtain v w where q: "db_view db ps (world st) = (v, w)" by (cases "db_view db ps (world st)")
  have q': "db_view (recording db) ps (world st, log) = (v, (w, log @ [(View ps, answered v)]))"
    using q by (simp add: recording_def)
  show ?case
  proof (cases v)
    case (Inl err)
    with q q' show ?thesis by simp
  next
    case (Inr body_rows)
    obtain hr st1 evs1 where hd: "handler (take pageSize body_rows) (st\<lparr>world := w\<rparr>) = (hr, st1, evs1)"
      using prod_cases3 by blast
    from h[of "take pageSize body_rows" "st\<lparr>world := w\<rparr>" "log @ [(View ps, None)]"] hd
    have hd': "handler' (take pageSize body_rows) (with_log (st\<lparr>world := w\<rparr>) (log @ [(View ps, None)]))
        = (hr, with_log st1 (log @ (View ps, None) # calls evs1), evs1)"
      by simp
    obtain f2 st2 evs2 where n: "nextBatch fuel db pageSize handler (advance ps (body_rows ! pageSize)) st1 = (f2, st2, evs2)"
      using prod_cases3 by blast
    from Suc.IH[of "advance ps (body_rows ! pageSize)" st1 "log @ (View ps, None) # calls evs1"] n
    have n': "nextBatch fuel (recording db) pageSize handler' (advance ps (body_rows ! pageSize))
        (with_log st1 (log @ (View ps, None) # calls evs1))
        = (f2, with_log st2 (log @ (View ps, None) # calls evs1 @ calls evs2), evs2)"
      by simp
    from q q' Inr hd hd' n n' show ?thesis
      by (simp split: handled.splits option.splits)
  qed
qed

lemma migrate_recording:
  fixes db :: "('k, 'v, 'd, 'w, 'y) store_scheme" and opts :: "('k, 'v, 'd, 'w, 'z) options_scheme"
  shows "migrate fuel (recording db) (recording_opts opts) (w, log) =
     (case migrate fuel db opts w of
        (fin, st, evs) \<Rightarrow> (fin, with_log st (log @ calls evs), evs))"
proof -
  have i: "initialState (recording_opts opts) (w, log) = with_log (initialState opts w) log"
    by (simp add: initialState_def with_log_def)
  show ?thesis
    unfolding migrate_def getViewInBatches_def i recording_opts_simps
    by (rule nextBatch_recording) (rule batchHandler_recording)
qed

section \<open>Conflict retries\<close>

text \<open>
  Retry exhaustion at the ceiling. Take a sub-batch of distinct rows whose processing
  meets no failed call, and a row of it whose group of write results holds a conflict in
  every attempt it takes part in. Then the sub-batch ends without an error (the loop
  over sub-batches goes on), there are exactly \<open>nat (retries opts) + 1\<close> attempts, where
  \<open>retries opts\<close> is the ceiling computed from \<open>retryConflicts\<close>, the row takes part in every
  one of them and is a written row of none, it is reported as failed exactly once, with
  the error \<open>Conflict\<close>, and the success counter has grown by the number of rows that
  were not reported.
\<close>

lemma retry_exhaustion_at_ceiling:
  fixes db :: "('k, 'v, 'd, 'w, 'y) store_scheme" and opts :: "('k, 'v, 'd, 'w, 'z) options_scheme"
    and st :: "'w mstate"
  assumes run: "processBatch db opts batch 0 st = (res, st', evs)"
    and ok: "\<forall>c e. Called c (Some e) \<notin> set evs"
    and d: "distinct batch" and r: "r \<in> set batch"
    and conf: "\<forall>a \<in> set (attempts evs). r \<in> set (batch_of a) \<longrightarrow> conflicted r a"
  shows "res = None \<and>
         length (attempts evs) = nat (retries opts) + 1 \<and>
         (\<forall>a \<in> set (attempts evs). r \<in> set (batch_of a) \<and> \<not> written r a) \<and>
         count_list (failures evs) (r, Err ''Conflict'') = 1 \<and>
         realcurrent st' = realcurrent st + int (length batch) - int (length (failures evs))"
proof -
  note tr = processBatch_trace[OF run]
  have res: "res = None"
  proof (cases res)
    case None then show ?thesis .
  next
    case (Some e)
    with tr have "aborted e evs" by simp
    with ok aborted_failed show ?thesis by blast
  qed
  have ch: "retry_chain False (retries opts) 0 batch (attempts evs)"
    using processBatch_chain[OF run] res by simp
  have always: "\<forall>a \<in> set (attempts evs). r \<in> set (batch_of a) \<longrightarrow> r \<in> set (conflicts_of a)"
  proof (intro ballI impI)
    fix a assume a: "a \<in> set (attempts evs)" and b: "r \<in> set (batch_of a)"
    from conflictRows_conflicted[OF chain_distinct[OF ch d a], of "snd (snd a)" "fst a"]
    have "conflicts_of a = filter (\<lambda>row. conflicted row a) (batch_of a)" by (cases a) auto
    with conf a b show "r \<in> set (conflicts_of a)" by simp
  qed
  from chain_always[OF ch r always]
  have len: "length (attempts evs) = nat (retries opts) + 1"
    and inb: "\<forall>a \<in> set (attempts evs). r \<in> set (batch_of a)"
    and fin: "r \<in> set (final_conflicts (attempts evs))" by auto
  have fl: "failures evs = map (\<lambda>row. (row, Err ''Conflict'')) (final_conflicts (attempts evs))"
    using tr res by simp
  have "distinct (failures evs)"
    unfolding fl using final_conflicts_distinct[OF ch d] by (simp add: distinct_map inj_on_def)
  moreover have "(r, Err ''Conflict'') \<in> set (failures evs)" unfolding fl using fin by auto
  ultimately have cnt: "count_list (failures evs) (r, Err ''Conflict'') = 1"
    by (rule count_list_distinct)
  have ns: "\<forall>a \<in> set (attempts evs). \<not> written r a"
  proof
    fix a assume a: "a \<in> set (attempts evs)"
    with conf inb have "conflicted r a" by simp
    then show "\<not> written r a"
      by (auto simp: written_def conflicted_def split: option.splits)
  qed
  have "realcurrent st' = realcurrent st + int (length batch) - int (length (failures evs))"
    using tr chain_sum[OF ch] by (simp add: fl)
  with res len inb ns cnt show ?thesis by simp
qed

text \<open>
  For example, at the store where document \<open>b\<close> conflicts in the first three bulk calls,
  with the default ceiling: three attempts, row \<open>b\<close> reported once, one success counted.
\<close>

lemma retry_exhaustion_default_run:
  "fst (processBatch (flaky_db 3) (own_doc_opts RetryAbsent) [keyed_a, keyed_b] 0 start) = None \<and>
   length (attempts (snd (snd
     (processBatch (flaky_db 3) (own_doc_opts RetryAbsent) [keyed_a, keyed_b] 0 start)))) = 3 \<and>
   count_list (failures (snd (snd
     (processBatch (flaky_db 3) (own_doc_opts RetryAbsent) [keyed_a, keyed_b] 0 start))))
     (keyed_b, Err ''Conflict'') = 1 \<and>
   realcurrent (fst (snd
     (processBatch (flaky_db 3) (own_doc_opts RetryAbsent) [keyed_a, keyed_b] 0 start))) = 1"
proof -
  obtain res st' evs where
    p: "processBatch (flaky_db 3) (own_doc_opts RetryAbsent) [keyed_a, keyed_b] 0 start = (res, st', evs)"
    by (rule prod_cases3)
  from p have e: "evs = snd (snd
      (processBatch (flaky_db 3) (own_doc_opts RetryAbsent) [keyed_a, keyed_b] 0 start))"
    and s: "st' = fst (snd
      (processBatch (flaky_db 3) (own_doc_opts RetryAbsent) [keyed_a, keyed_b] 0 start))"
    by simp_all
  have ok: "\<forall>c e. Called c (Some e) \<notin> set evs"
    unfolding e flaky_default_run by simp
  have d: "distinct [keyed_a, keyed_b]"
    by (simp add: keyed_a_def keyed_b_def row_a_def row_b_def)
  have b: "keyed_b \<in> set [keyed_a, keyed_b]" by simp
  have always: "\<forall>a \<in> set (attempts evs).
      keyed_b \<in> set (batch_of a) \<longrightarrow> conflicted keyed_b a"
    unfolding e flaky_default_run
    by (simp add: conflicted_def keyed_a_def keyed_b_def row_a_def row_b_def)
  have c: "retries (own_doc_opts RetryAbsent) = 2"
    by (simp add: retries_def own_doc_opts_def)
  have l: "int (length (failures evs)) = 1"
    unfolding e flaky_default_run by simp
  from retry_exhaustion_at_ceiling[OF p ok d b always] c l
  show ?thesis unfolding p by (simp add: start_def)
qed

text \<open>
  Claim C3 at \<open>retryConflicts = 0\<close>, the number. The JSDoc gives \<open>retryConflicts\<close> as
  \<open>How many retries when changes conflict\<close>, so the number 0 asks for no retry, and the
  claim for \<open>0 + 1 = 1\<close> attempt. The store rejects every write of document \<open>b\<close> with a
  conflict in its first three bulk calls. But \<open>options.retryConflicts || 2\<close> takes the
  falsy 0 for a missing value: row \<open>b\<close> is written three times, each write answered by a
  conflict, and it is reported only after the third. With the literal \<open>false\<close> there is one
  attempt, and with the number 1 there are two, as the claim has it.
\<close>

theorem retryConflicts_zero_retries_twice:
  "retryConflicts (own_doc_opts (RetryNum 0)) = RetryNum 0 \<and>
   processBatch (flaky_db 3) (own_doc_opts (RetryNum 0)) [keyed_a, keyed_b] 0 start =
     (None, \<lparr>world = 3, limit_left = None, realcurrent = 1, batch_no = 0\<rparr>,
      [Called (Fetch [''a'', ''b'']) None,
       Called (ChangesCb keyed_a (Some [Some (''a'', 0)])) None,
       Called (ChangesCb keyed_b (Some [Some (''b'', 0)])) None,
       Called (Bulk [(''a'', 0), (''b'', 0)]) None,
       ProcessErrors 0 [keyed_a, keyed_b] [[Written], [Rejected ''conflict'']],
       Tick 1 1,
       Called (Fetch [''b'']) None,
       Called (ChangesCb keyed_b (Some [Some (''b'', 1)])) None,
       Called (Bulk [(''b'', 1)]) None,
       ProcessErrors 1 [keyed_b] [[Rejected ''conflict'']],
       Tick 0 1,
       Called (Fetch [''b'']) None,
       Called (ChangesCb keyed_b (Some [Some (''b'', 2)])) None,
       Called (Bulk [(''b'', 2)]) None,
       ProcessErrors 2 [keyed_b] [[Rejected ''conflict'']],
       Tick 0 1,
       ReportFailure keyed_b (Err ''Conflict'')]) \<and>
   map fst (attempts (snd (snd
     (processBatch (flaky_db 3) (own_doc_opts RetryFalse) [keyed_a, keyed_b] 0 start)))) = [0] \<and>
   map fst (attempts (snd (snd
     (processBatch (flaky_db 3) (own_doc_opts (RetryNum 1)) [keyed_a, keyed_b] 0 start)))) = [0, 1]"
proof -
  have "map fst (attempts (snd (snd
     (processBatch (flaky_db 3) (own_doc_opts RetryFalse) [keyed_a, keyed_b] 0 start)))) = [0]"
    by (simp add: eval_defs processBatch.simps)
  moreover have "map fst (attempts (snd (snd
     (processBatch (flaky_db 3) (own_doc_opts (RetryNum 1)) [keyed_a, keyed_b] 0 start)))) = [0, 1]"
    by (simp add: eval_defs processBatch.simps)
  ultimately show ?thesis unfolding flaky_always_run by (simp add: own_doc_opts_def)
qed

section \<open>A conflict that a retry resolves\<close>

text \<open>
  Claim C7. Take a sub-batch of distinct rows and a row that is written in attempt
  number \<open>k\<close> (counted from 0): its group of write results, as \<open>processErrors\<close> was handed
  it, holds no conflict. Then \<open>k\<close> is at most the retry ceiling, the row's group held a
  conflict in every earlier attempt, it is a written row of attempt \<open>k\<close> and of no other
  attempt, and it is never reported as failed. Every attempt, the original one and each retry, hands one count to
  \<open>progress.tick\<close>: the number of its rows that were written, which is the size of its
  batch minus the size of its retry-needed set (the rows in conflict). Each count is
  added to \<open>progressTokens.realcurrent\<close> before the tick shows it, so the counter grows by
  the sum of the counts, in which the row is counted once. The attempts are numbered
  0, 1, 2, ...
\<close>

theorem conflict_then_success_counted_once:
  fixes db :: "('k, 'v, 'd, 'w, 'y) store_scheme" and opts :: "('k, 'v, 'd, 'w, 'z) options_scheme"
    and st :: "'w mstate"
  assumes run: "processBatch db opts batch 0 st = (res, st', evs)"
    and d: "distinct batch"
    and k: "k < length (attempts evs)"
    and w: "written r (attempts evs ! k)"
  shows "k \<le> nat (retries opts) \<and>
         (\<forall>j<k. conflicted r (attempts evs ! j)) \<and>
         (\<forall>j<length (attempts evs). written r (attempts evs ! j) = (j = k)) \<and>
         r \<notin> fst ` set (failures evs) \<and>
         ticks evs = map (\<lambda>a. int (length (filter (\<lambda>row. written row a) (batch_of a)))) (attempts evs) \<and>
         map conflicts_of (attempts evs)
           = map (\<lambda>a. filter (\<lambda>row. conflicted row a) (batch_of a)) (attempts evs) \<and>
         ticks evs = map (\<lambda>a. int (length (batch_of a)) - int (length (conflicts_of a))) (attempts evs) \<and>
         counters evs = running (realcurrent st) (ticks evs) \<and>
         realcurrent st' = realcurrent st + sum_list (ticks evs) \<and>
         map fst (attempts evs) = map int [0..<length (attempts evs)]"
proof -
  note tr = processBatch_trace[OF run]
  note ch = processBatch_chain[OF run]
  note cn = processBatch_counter[OF run]
  have dist: "distinct (batch_of a)" if "a \<in> set (attempts evs)" for a
    by (rule chain_distinct[OF ch d that])
  have len: "length (snd (snd a)) = length (batch_of a)" if "a \<in> set (attempts evs)" for a
    using cn that by (cases a) (auto simp: list_all_iff)
  have cf: "conflicts_of a = filter (\<lambda>row. conflicted row a) (batch_of a)"
    if "a \<in> set (attempts evs)" for a
    using conflictRows_conflicted[OF dist[OF that], of "snd (snd a)" "fst a"] by (cases a) auto
  have wr: "filter (\<lambda>row. written row a) (batch_of a) = successes_of a"
    if "a \<in> set (attempts evs)" for a
    using written_not_conflicted[of "batch_of a" "snd (snd a)" "fst a"] dist[OF that] len[OF that]
    by (cases a) auto
  have ak: "attempts evs ! k \<in> set (attempts evs)" using k by simp
  have inb: "r \<in> set (batch_of (attempts evs ! k))" by (rule written_in_batch[OF w])
  have succ: "r \<notin> set (conflicts_of (attempts evs ! k))"
    by (rule written_no_conflict[OF dist[OF ak] w])
  note once = chain_success_once[OF ch k inb succ]
  have kk: "k \<le> nat (retries opts)" using chain_length[OF ch] k by simp
  have before: "\<forall>j<k. conflicted r (attempts evs ! j)"
  proof (intro allI impI)
    fix j assume j: "j < k"
    then have "attempts evs ! j \<in> set (attempts evs)" using k by simp
    from cf[OF this] once j show "conflicted r (attempts evs ! j)" by auto
  qed
  have excl: "written r a \<Longrightarrow> \<not> conflicted r a" for a
    by (auto simp: written_def conflicted_def split: option.splits)
  have cnt: "\<forall>j<length (attempts evs). written r (attempts evs ! j) = (j = k)"
  proof (intro allI impI)
    fix j assume j: "j < length (attempts evs)"
    consider "j < k" | "j = k" | "k < j" by linarith
    then show "written r (attempts evs ! j) = (j = k)"
    proof cases
      case 1
      with before have "conflicted r (attempts evs ! j)" by simp
      with excl[of "attempts evs ! j"] 1 show ?thesis by blast
    next
      case 2 with w show ?thesis by simp
    next
      case 3
      with once j have "r \<notin> set (batch_of (attempts evs ! j))" by simp
      with written_in_batch[of r "attempts evs ! j"] 3 show ?thesis by auto
    qed
  qed
  have nf: "r \<notin> fst ` set (failures evs)"
    using tr once by (auto split: if_splits)
  have t2: "ticks evs = map (\<lambda>a. int (length (batch_of a)) - int (length (conflicts_of a))) (attempts evs)"
    using tr by (auto intro!: map_cong)
  have "int (length (successes_of a)) = int (length (batch_of a)) - int (length (conflicts_of a))"
    if "a \<in> set (attempts evs)" for a
    using dist[OF that] successes_length[of "batch_of a" "fst a" "snd (snd a)"]
    by (cases a) auto
  then have t1: "ticks evs = map (\<lambda>a. int (length (filter (\<lambda>row. written row a) (batch_of a)))) (attempts evs)"
    unfolding t2 using wr by (auto intro!: map_cong)
  have c2: "map conflicts_of (attempts evs)
           = map (\<lambda>a. filter (\<lambda>row. conflicted row a) (batch_of a)) (attempts evs)"
    using cf by (auto intro!: map_cong)
  have num: "map fst (attempts evs) = map int [0..<length (attempts evs)]"
    using chain_numbers[OF ch] by simp
  have rc: "realcurrent st' = realcurrent st + sum_list (ticks evs)" using tr by simp
  have ct: "counters evs = running (realcurrent st) (ticks evs)" using cn by simp
  from kk before cnt nf t1 c2 t2 ct rc num show ?thesis by blast
qed

text \<open>
  The theorem at the store where document \<open>b\<close> conflicts in the first bulk call only: row
  \<open>b\<close> is in conflict in the first attempt and written in the second, both attempts
  report one success, and the counter goes from 0 to 1 and to 2.
\<close>

theorem conflict_then_success_counted_once_witness:
  "conflicted keyed_b (attempts (snd (snd
     (processBatch (flaky_db 1) (own_doc_opts RetryAbsent) [keyed_a, keyed_b] 0 start))) ! 0) \<and>
   \<not> written keyed_b (attempts (snd (snd
     (processBatch (flaky_db 1) (own_doc_opts RetryAbsent) [keyed_a, keyed_b] 0 start))) ! 0) \<and>
   written keyed_b (attempts (snd (snd
     (processBatch (flaky_db 1) (own_doc_opts RetryAbsent) [keyed_a, keyed_b] 0 start))) ! 1) \<and>
   keyed_b \<notin> fst ` set (failures (snd (snd
     (processBatch (flaky_db 1) (own_doc_opts RetryAbsent) [keyed_a, keyed_b] 0 start)))) \<and>
   ticks (snd (snd
     (processBatch (flaky_db 1) (own_doc_opts RetryAbsent) [keyed_a, keyed_b] 0 start))) = [1, 1] \<and>
   counters (snd (snd
     (processBatch (flaky_db 1) (own_doc_opts RetryAbsent) [keyed_a, keyed_b] 0 start))) = [1, 2] \<and>
   realcurrent (fst (snd
     (processBatch (flaky_db 1) (own_doc_opts RetryAbsent) [keyed_a, keyed_b] 0 start))) = 2"
proof -
  obtain res st' evs where
    p: "processBatch (flaky_db 1) (own_doc_opts RetryAbsent) [keyed_a, keyed_b] 0 start = (res, st', evs)"
    by (rule prod_cases3)
  from p have e: "evs = snd (snd
      (processBatch (flaky_db 1) (own_doc_opts RetryAbsent) [keyed_a, keyed_b] 0 start))"
    by simp
  have d: "distinct [keyed_a, keyed_b]"
    by (simp add: keyed_a_def keyed_b_def row_a_def row_b_def)
  have k: "1 < length (attempts evs)" unfolding e flaky_once_run by simp
  have w: "written keyed_b (attempts evs ! 1)"
    unfolding e flaky_once_run by (simp add: written_def)
  have l: "length (attempts evs) = 2" unfolding e flaky_once_run by simp
  have t: "ticks evs = [1, 1]" unfolding e flaky_once_run by simp
  have s: "realcurrent start = 0" by (simp add: start_def)
  note th = conflict_then_success_counted_once[OF p d k w]
  from th have c0: "conflicted keyed_b (attempts evs ! 0)" by simp
  from th l have s0: "written keyed_b (attempts evs ! 0) = (0 = (1::nat))"
    and s1: "written keyed_b (attempts evs ! 1) = (1 = (1::nat))"
    by simp_all
  from th have nf: "keyed_b \<notin> fst ` set (failures evs)" by simp
  from th have ct: "counters evs = running (realcurrent start) (ticks evs)" by simp
  from th have rc: "realcurrent st' = realcurrent start + sum_list (ticks evs)" by simp
  from c0 s0 s1 nf t ct rc s show ?thesis unfolding p by simp
qed

section \<open>The retry ceiling\<close>

text \<open>
  Claim C10. \<open>retryConflicts\<close> given as the number 0 yields the ceiling 2, as a missing
  \<open>retryConflicts\<close> does; the ceiling is 0 for the literal \<open>false\<close> and for nothing else.
  At the store where document \<open>b\<close> always conflicts, the number 0 leads to three
  attempts and \<open>false\<close> to one.
\<close>

theorem retryConflicts_zero_is_default:
  "retries (opts\<lparr>retryConflicts := RetryNum 0\<rparr>) = 2 \<and>
   retries (opts\<lparr>retryConflicts := RetryAbsent\<rparr>) = 2 \<and>
   retries (opts\<lparr>retryConflicts := RetryFalse\<rparr>) = 0 \<and>
   (retries opts = 0) = (retryConflicts opts = RetryFalse) \<and>
   length (attempts (snd (snd
     (processBatch (flaky_db 3) (own_doc_opts (RetryNum 0)) [keyed_b] 0 start)))) = 3 \<and>
   length (attempts (snd (snd
     (processBatch (flaky_db 3) (own_doc_opts RetryFalse) [keyed_b] 0 start)))) = 1"
proof -
  have "(retries opts = 0) = (retryConflicts opts = RetryFalse)"
    by (cases "retryConflicts opts") (auto simp: retries_def)
  moreover have "length (attempts (snd (snd
     (processBatch (flaky_db 3) (own_doc_opts (RetryNum 0)) [keyed_b] 0 start)))) = 3"
    by (simp add: eval_defs processBatch.simps)
  moreover have "length (attempts (snd (snd
     (processBatch (flaky_db 3) (own_doc_opts RetryFalse) [keyed_b] 0 start)))) = 1"
    by (simp add: eval_defs processBatch.simps)
  ultimately show ?thesis by (simp add: retries_def)
qed

section \<open>Regrouping the write results\<close>

text \<open>
  When every row's changes are an array (or missing), and the store answers with one
  result per change, \<open>unflatten\<close> gives each row a group as long as its list of
  changes; and \<open>unflatten\<close> undoes \<open>concat\<close>.
\<close>

lemma unflatten_from_lengths:
  "i + sum_list cs \<le> length xs \<Longrightarrow>
     map length (unflatten_from (Some i) xs (map Some cs)) = cs"
  by (induction cs arbitrary: i) auto

lemma unflatten_from_concat:
  "unflatten_from (Some (length pre)) (pre @ concat groups) (map (\<lambda>g. Some (length g)) groups)
     = groups"
proof (induction groups arbitrary: pre)
  case Nil then show ?case by simp
next
  case (Cons g groups)
  from Cons.IH[of "pre @ g"] show ?case by simp
qed

lemma unflatten_concat: "unflatten (concat groups) (map (\<lambda>g. Some (length g)) groups) = groups"
  using unflatten_from_concat[of "[]" groups] by (simp add: unflatten_def)

lemma arrays_aligned:
  assumes "list_all (\<lambda>c. \<not> isSingle c) changes0"
    and "length results = length (concat (map flattenShape (map orEmpty changes0)))"
  shows "map length (unflatten results (map lengthOf (map orEmpty changes0)))
           = map (\<lambda>c. length (flattenShape c)) changes0"
proof -
  have c: "map lengthOf (map orEmpty changes0) = map Some (map (\<lambda>c. length (flattenShape c)) changes0)"
    using assms(1)
  proof (induction changes0)
    case Nil then show ?case by simp
  next
    case (Cons c cs) then show ?case by (cases c) auto
  qed
  have s: "sum_list (map (\<lambda>c. length (flattenShape c)) changes0)
             = length (concat (map flattenShape (map orEmpty changes0)))"
  proof (induction changes0)
    case Nil then show ?case by simp
  next
    case (Cons c cs) then show ?case by (cases c) (auto simp: length_concat)
  qed
  have "map length (unflatten_from (Some 0) results
          (map Some (map (\<lambda>c. length (flattenShape c)) changes0)))
        = map (\<lambda>c. length (flattenShape c)) changes0"
    by (rule unflatten_from_lengths) (simp add: s assms(2))
  then show ?thesis unfolding unflatten_def c .
qed

text \<open>
  Claim C2 at a callback that returns one change outside an array. The rows \<open>a\<close> and \<open>b\<close>
  produce one change each, the first as a single change and the second as an array of
  one; the bulk call is made with both and answers \<open>[ok, conflict]\<close>. The count read
  for the single change is \<open>undefined\<close>, so \<open>unflatten\<close> returns two empty groups:
  their lengths are 0 and 0, not 1 and 1, the conflict of row \<open>b\<close> is lost, and
  \<open>processErrors\<close> counts two successes with no retry.
\<close>

theorem single_change_misaligned:
  "db_bulk (flaky_db 1) [(''a'', 0), (''b'', 0)] 0 = (Inr [Written, Rejected ''conflict''], 1) \<and>
   runChanges (flaky_db 1) single_change_opts [row_a, row_b] [] 0 =
     (Inr [[], []], 1,
      [Called (ChangesCb row_a None) None, Called (ChangesCb row_b None) None,
       Called (Bulk [(''a'', 0), (''b'', 0)]) None]) \<and>
   processBatch (flaky_db 1) single_change_opts [row_a, row_b] 0 start =
     (None, \<lparr>world = 1, limit_left = None, realcurrent = 2, batch_no = 0\<rparr>,
      [Called (ChangesCb row_a None) None, Called (ChangesCb row_b None) None,
       Called (Bulk [(''a'', 0), (''b'', 0)]) None,
       ProcessErrors 0 [row_a, row_b] [[], []], Tick 2 2])"
  by (simp add: eval_defs single_change_opts_def processBatch.simps)

section \<open>What a retry repeats\<close>

text \<open>
  Claim C1, as the code has it. \<open>processErrors\<close> retries by calling \<open>processBatch\<close>, and
  \<open>processBatch\<close> begins with the multi-get. So when an attempt ends with a retry-needed
  set that is not empty, below the ceiling, and the rows of that set have extra keys,
  the next events of the sub-batch are a new multi-get for exactly those keys and then
  \<open>runChanges\<close> on the documents of that new answer: the changes callback of a retried
  row receives the newly fetched documents. What is not repeated is the keys callback:
  no trace of \<open>processBatch\<close> holds a call of it, the keys attached to the rows are used
  again.
\<close>

theorem retry_fetches_again:
  fixes db :: "('k, 'v, 'd, 'w, 'y) store_scheme" and opts :: "('k, 'v, 'd, 'w, 'z) options_scheme"
    and st :: "'w mstate"
  assumes a1: "attempt db opts batch (world st) = (Inr results, w, evs)"
    and nb: "conflictRows batch results = newBatch" "newBatch \<noteq> []"
    and below: "retry < retries opts"
    and keys: "concat (map extraKeys newBatch) \<noteq> []"
    and f: "db_fetch db (concat (map extraKeys newBatch)) w = (Inr docs, w')"
  shows "(\<exists>r st2 s t rest. processBatch db opts batch retry st =
            (r, st2, evs @ [ProcessErrors retry batch results, Tick s t,
                            Called (Fetch (concat (map extraKeys newBatch))) None]
                     @ snd (snd (runChanges db opts newBatch
                          (unflatten docs (map (\<lambda>ks. Some (length ks)) (map extraKeys newBatch))) w'))
                     @ rest)) \<and>
         list_all (\<lambda>ev. \<not> isKeysCall ev) (snd (snd (processBatch db opts batch retry st)))"
proof -
  let ?st1 = "st\<lparr>world := w, realcurrent := realcurrent st + (int (length batch) - int (length newBatch))\<rparr>"
  let ?ds = "unflatten docs (map (\<lambda>ks. Some (length ks)) (map extraKeys newBatch))"
  obtain r2 w2 evs2 where rc: "runChanges db opts newBatch ?ds w' = (r2, w2, evs2)"
    using prod_cases3 by blast
  have fe: "fetchExtraDocs db newBatch w = (Inr ?ds, w', [Called (Fetch (concat (map extraKeys newBatch))) None])"
    using keys f by (simp add: fetchExtraDocs_def Let_def)
  have a2: "attempt db opts newBatch w = (r2, w2, Called (Fetch (concat (map extraKeys newBatch))) None # evs2)"
    using fe rc by (simp add: attempt_def)
  have "\<exists>r st2 rest. processBatch db opts newBatch (retry + 1) ?st1 =
          (r, st2, Called (Fetch (concat (map extraKeys newBatch))) None # evs2 @ rest)"
    using a2 by (subst processBatch_unfold) (auto simp: Let_def split: sum.splits prod.splits)
  then obtain r st2 rest where p2: "processBatch db opts newBatch (retry + 1) ?st1 =
          (r, st2, Called (Fetch (concat (map extraKeys newBatch))) None # evs2 @ rest)" by blast
  have p1: "processBatch db opts batch retry st =
     (r, st2, evs @ [ProcessErrors retry batch results,
                     Tick (int (length batch) - int (length newBatch)) (realcurrent ?st1),
                     Called (Fetch (concat (map extraKeys newBatch))) None] @ evs2 @ rest)"
    using a1 nb below p2 by (subst processBatch_unfold) (simp add: Let_def)
  obtain r0 st0 evs0 where p0: "processBatch db opts batch retry st = (r0, st0, evs0)"
    using prod_cases3 by blast
  have "list_all (\<lambda>ev. \<not> isKeysCall ev) evs0"
  proof (rule processBatch_all[OF _ _ _ _ _ p0])
    show "set batch \<subseteq> set batch" by simp
  next
    fix batch' w r w' evs
    assume "attempt db opts batch' w = (r, w', evs)"
    then show "list_all (\<lambda>ev. \<not> isKeysCall ev) evs" by (rule attempt_no_keys_calls)
  qed simp_all
  with p0 p1 rc show ?thesis by auto
qed

text \<open>
  The theorem at the store where document \<open>b\<close> conflicts in the first bulk call: the
  retry of row \<open>b\<close> fetches key \<open>b\<close> again.
\<close>

theorem retry_fetches_again_witness:
  "(\<exists>r st2 s t rest.
      processBatch (flaky_db 1) (own_doc_opts RetryAbsent) [keyed_a, keyed_b] 0 start =
        (r, st2,
         [Called (Fetch [''a'', ''b'']) None,
          Called (ChangesCb keyed_a (Some [Some (''a'', 0)])) None,
          Called (ChangesCb keyed_b (Some [Some (''b'', 0)])) None,
          Called (Bulk [(''a'', 0), (''b'', 0)]) None]
         @ [ProcessErrors 0 [keyed_a, keyed_b] [[Written], [Rejected ''conflict'']], Tick s t,
            Called (Fetch (concat (map extraKeys [keyed_b]))) None]
         @ snd (snd (runChanges (flaky_db 1) (own_doc_opts RetryAbsent) [keyed_b]
              (unflatten [Some (''b'', 1)] (map (\<lambda>ks. Some (length ks)) (map extraKeys [keyed_b])))
              1))
         @ rest)) \<and>
   list_all (\<lambda>ev. \<not> isKeysCall ev)
     (snd (snd (processBatch (flaky_db 1) (own_doc_opts RetryAbsent) [keyed_a, keyed_b] 0 start)))"
  by (rule retry_fetches_again[where w = 1 and w' = 1]) (simp_all add: eval_defs attempt_def)

text \<open>
  Against C1 as stated: in this run the retry of row \<open>b\<close> performs a second multi-get
  (\<open>Fetch [b]\<close>), and the changes callback of row \<open>b\<close> receives the document at revision 1
  from it, not the document at revision 0 that the first attempt fetched.
\<close>

theorem retry_refetch_counterexample:
  "snd (snd (processBatch (flaky_db 1) (own_doc_opts RetryAbsent) [keyed_a, keyed_b] 0 start)) =
     [Called (Fetch [''a'', ''b'']) None,
      Called (ChangesCb keyed_a (Some [Some (''a'', 0)])) None,
      Called (ChangesCb keyed_b (Some [Some (''b'', 0)])) None,
      Called (Bulk [(''a'', 0), (''b'', 0)]) None,
      ProcessErrors 0 [keyed_a, keyed_b] [[Written], [Rejected ''conflict'']],
      Tick 1 1,
      Called (Fetch [''b'']) None,
      Called (ChangesCb keyed_b (Some [Some (''b'', 1)])) None,
      Called (Bulk [(''b'', 1)]) None,
      ProcessErrors 1 [keyed_b] [[Written]],
      Tick 1 2]"
  unfolding flaky_once_run by simp

section \<open>A filter that throws\<close>

lemma filtered_run:
  "batchHandler (flaky_db 0) filtered_opts [row_a, row_b] start =
     (CallNext None, \<lparr>world = 1, limit_left = None, realcurrent = 1, batch_no = 1\<rparr>,
      [Called (FilterCb row_a) (Some (Failed (Err ''boom''))), ReportFailure row_a (Err ''boom''),
       Called (FilterCb row_b) None,
       Tick 0 0,
       SubBatch [row_b],
       Called (FetchKeysCb row_b) None,
       Called (Fetch [''b'']) None,
       Called (ChangesCb keyed_b (Some [Some (''b'', 0)])) None,
       Called (Bulk [(''b'', 0)]) None,
       ProcessErrors 0 [keyed_b] [[Written]],
       Tick 1 1])"
  by (simp add: batchHandler_def applyLimit_def subBatches.simps batchSizeOf_def eval_defs
        filtered_opts_def picky_filter_def processBatch.simps)

text \<open>
  Claim C8. The filter is called for every row of the page, also after a row whose call
  threw. The rows kept are exactly those whose call returned true, in order; the rows
  reported as failed by the filter step are exactly those whose call threw, each with
  its error. The page is then handled as the page of the kept rows would be without a
  filter: the handler's trace is the filter's events followed by events of the sub-batch
  pipeline only, the rows that enter the pipeline are kept rows, in order, and when no
  call of the store or of the keys or changes callback fails, all kept rows that the row
  budget leaves enter it and the handler ends without an error: a throwing filter
  changes the rows that go on, not the course of the migration.
\<close>

theorem filter_failure_excludes_row:
  fixes db :: "('k, 'v, 'd, 'w, 'y) store_scheme" and opts :: "('k, 'v, 'd, 'w, 'z) options_scheme"
    and st :: "'w mstate" and evs1 :: "('k, 'v, 'd) event list"
  assumes sf: "sourceFilter opts = Some f"
    and fr: "filterRows f rows (world st) = (kept, w', evs1)"
    and run: "batchHandler db opts rows st = (h, st', evs)"
  shows "kept = map fst (filter (\<lambda>(row, v). v = Inr True) (zip rows (verdicts f rows (world st)))) \<and>
         failures evs1 = concat (map (\<lambda>(row, v). case v of Inl e \<Rightarrow> [(row, e)] | Inr b \<Rightarrow> [])
                                   (zip rows (verdicts f rows (world st)))) \<and>
         calls evs1 = map (\<lambda>(row, v). (FilterCb row, thrown v)) (zip rows (verdicts f rows (world st))) \<and>
         batchHandler db opts rows st =
           (case batchHandler db (opts\<lparr>sourceFilter := None\<rparr>) kept (st\<lparr>world := w'\<rparr>) of
              (h, st', evs2) \<Rightarrow> (h, st', evs1 @ evs2)) \<and>
         (\<exists>evs2. evs = evs1 @ evs2 \<and> list_all afterFilter evs2) \<and>
         (\<exists>m. piped evs = take m kept) \<and>
         ((\<forall>c e. fatal c \<longrightarrow> Called c (Some e) \<notin> set evs) \<longrightarrow>
            piped evs = fst (applyLimit (limit_left st) kept) \<and>
            (h = CallNext None \<or> (h = NoCallback \<and> (\<exists>pre. evs = pre @ [Complete None]))))"
proof -
  note r = filterRows_result[OF fr]
  have eq: "batchHandler db opts rows st =
           (case batchHandler db (opts\<lparr>sourceFilter := None\<rparr>) kept (st\<lparr>world := w'\<rparr>) of
              (h, st', evs2) \<Rightarrow> (h, st', evs1 @ evs2))"
    using sf fr
    by (simp add: batchHandler_def Let_def subBatches_filter_irrelevant
          split: prod.splits option.splits failure.splits)
  obtain rows2 lim where a: "applyLimit (limit_left st) kept = (rows2, lim)"
    by (cases "applyLimit (limit_left st) kept")
  from applyLimit_take[of "limit_left st" kept] a obtain m2 where m2: "rows2 = take m2 kept"
    by auto
  have p1: "piped evs1 = []" by (rule filterRows_piped[OF fr])
  let ?st2 = "st\<lparr>batch_no := Suc (batch_no st), world := w', limit_left := lim\<rparr>"
  have new: "(\<exists>evs2. evs = evs1 @ evs2 \<and> list_all afterFilter evs2) \<and>
         (\<exists>m. piped evs = take m kept) \<and>
         ((\<forall>c e. fatal c \<longrightarrow> Called c (Some e) \<notin> set evs) \<longrightarrow>
            piped evs = rows2 \<and>
            (h = CallNext None \<or> (h = NoCallback \<and> (\<exists>pre. evs = pre @ [Complete None]))))"
  proof (cases "rows2 = []")
    case True
    with run sf fr a have e: "h = CallNext None" "evs = evs1" by (simp_all add: batchHandler_unfold)
    have "piped evs = take 0 kept" using e p1 by simp
    then have "\<exists>m. piped evs = take m kept" by blast
    with e p1 True show ?thesis by simp
  next
    case False
    obtain res st3 evs2 where s: "subBatches db opts rows2 0 ?st2 = (res, st3, evs2)"
      using prod_cases3 by blast
    have q: "list_all afterFilter evs2" by (rule subBatches_all[OF _ _ _ _ _ _ _ _ s]) simp_all
    note sp = subBatches_prefix[OF s]
    from sp obtain m where m0: "piped evs2 = take m (drop 0 rows2)" by blast
    then have m: "piped evs2 = take m rows2" by simp
    from sp have full: "res = None \<longrightarrow> piped evs2 = rows2" by simp
    note en = subBatches_ended[OF s]
    from run sf fr a False s obtain tail where
      e: "evs = evs1 @ Tick 0 (realcurrent st) # evs2 @ tail" and
      tl: "tail = [] \<or> (\<exists>c. tail = [Complete c])" and
      hn: "res = None \<longrightarrow> (h = CallNext None \<and> tail = []) \<or> (h = NoCallback \<and> tail = [Complete None])"
      by (auto simp: batchHandler_unfold split: option.splits failure.splits if_splits)
    from tl have t1: "list_all afterFilter tail" "piped tail = []" by auto
    have c1: "\<exists>evs2. evs = evs1 @ evs2 \<and> list_all afterFilter evs2"
      using e q t1 by simp
    have "piped evs = take (min m m2) kept" using e p1 m m2 t1 by simp
    then have c2: "\<exists>m. piped evs = take m kept" by blast
    have c3: "piped evs = rows2 \<and>
          (h = CallNext None \<or> (h = NoCallback \<and> (\<exists>pre. evs = pre @ [Complete None])))"
      if n: "\<forall>c e. fatal c \<longrightarrow> Called c (Some e) \<notin> set evs"
    proof -
      from n e have "\<forall>c e. fatal c \<longrightarrow> Called c (Some e) \<notin> set evs2" by auto
      from ended_no_failure[OF en this] have rn: "res = None" .
      with full e p1 t1 have pp: "piped evs = rows2" by simp
      from rn hn consider "h = CallNext None" | "h = NoCallback" "tail = [Complete None]" by blast
      then show ?thesis
      proof cases
        case 1 with pp show ?thesis by simp
      next
        case 2
        then have "evs = (evs1 @ Tick 0 (realcurrent st) # evs2) @ [Complete None]"
          using e by simp
        then have "\<exists>pre. evs = pre @ [Complete None]" by blast
        with pp 2 show ?thesis by simp
      qed
    qed
    from c1 c2 c3 show ?thesis by blast
  qed
  from r eq new a show ?thesis by simp
qed

text \<open>
  The theorem at a filter that throws for row \<open>a\<close>: row \<open>a\<close> is reported and dropped, row
  \<open>b\<close> alone enters the pipeline and is written, and the handler asks for the next page
  without an error.
\<close>

theorem filter_failure_excludes_row_witness:
  "fst (filterRows picky_filter [row_a, row_b] 0) = [row_b] \<and>
   snd (snd (filterRows picky_filter [row_a, row_b] 0)) =
     [Called (FilterCb row_a) (Some (Failed (Err ''boom''))), ReportFailure row_a (Err ''boom''),
      Called (FilterCb row_b) None] \<and>
   piped (snd (snd (batchHandler (flaky_db 0) filtered_opts [row_a, row_b] start))) = [row_b] \<and>
   fst (batchHandler (flaky_db 0) filtered_opts [row_a, row_b] start) = CallNext None"
proof -
  have sf: "sourceFilter filtered_opts = Some picky_filter" by (simp add: filtered_opts_def)
  have fr0: "filterRows picky_filter [row_a, row_b] 0 =
     ([row_b], 0, [Called (FilterCb row_a) (Some (Failed (Err ''boom''))), ReportFailure row_a (Err ''boom''),
      Called (FilterCb row_b) None])"
    by (simp add: picky_filter_def row_a_def row_b_def)
  have w: "world start = 0" "limit_left start = None" by (simp_all add: start_def)
  have fr: "filterRows picky_filter [row_a, row_b] (world start) =
     ([row_b], 0, [Called (FilterCb row_a) (Some (Failed (Err ''boom''))), ReportFailure row_a (Err ''boom''),
      Called (FilterCb row_b) None])"
    unfolding w by (rule fr0)
  obtain h st' evs where
    run: "batchHandler (flaky_db 0) filtered_opts [row_a, row_b] start = (h, st', evs)"
    by (rule prod_cases3)
  have ok: "\<forall>c e. fatal c \<longrightarrow> Called c (Some e) \<notin> set evs"
    using run unfolding filtered_run by auto
  note th = filter_failure_excludes_row[OF sf fr run]
  from th ok have "piped evs = fst (applyLimit (limit_left start) [row_b])"
    and hh: "h = CallNext None \<or> (h = NoCallback \<and> (\<exists>pre. evs = pre @ [Complete None]))"
    by blast+
  then have pp: "piped evs = [row_b]" by (simp add: w applyLimit_def)
  have "h \<noteq> NoCallback" using run unfolding filtered_run by auto
  with hh have "h = CallNext None" by blast
  with pp show ?thesis unfolding fr0 run by simp
qed

section \<open>Fatal errors\<close>

lemma split_at_last:
  "xs @ [a] = pre @ x # post \<Longrightarrow> x \<notin> set xs \<Longrightarrow> pre = xs \<and> x = a \<and> post = []"
proof (induction xs arbitrary: pre)
  case Nil
  then show ?case by (cases pre) auto
next
  case (Cons y ys)
  show ?case
  proof (cases pre)
    case Nil with Cons.prems show ?thesis by auto
  next
    case (Cons p pre')
    with Cons.prems Cons.IH[of pre'] show ?thesis by auto
  qed
qed

lemma clean_calls: "clean evs \<Longrightarrow> (c, out) \<in> set (calls evs) \<Longrightarrow> fatal c \<Longrightarrow> out = None"
proof (induction evs)
  case Nil then show ?case by simp
next
  case (Cons ev evs)
  then show ?case by (cases ev; cases out) auto
qed

lemma calls_Complete [simp]: "calls (evs @ [Complete r]) = calls evs"
  by simp

lemma throwing_run:
  "migrate 2 (flaky_db 0) throwing_opts 0 =
     (Crashed (Err ''bug''), \<lparr>world = 0, limit_left = None, realcurrent = 0, batch_no = 1\<rparr>,
      [Called (View \<lparr>limit = Some 1001, startkey = None, startkey_docid = None\<rparr>) None,
       PageHandler [row_a, row_b],
       Tick 0 0,
       SubBatch [row_a, row_b],
       Called (FetchKeysCb row_a) None,
       Called (FetchKeysCb row_b) None,
       Called (ChangesCb row_a None) None,
       Called (ChangesCb row_b None) (Some (Threw (Err ''bug'')))])"
  by (simp add: migrate_def getViewInBatches_def emptyParams_def initialState_def
        batchHandler_def applyLimit_def subBatches.simps batchSizeOf_def throwing_opts_def
        eval_defs processBatch.simps numeral_2_eq_2)

text \<open>
  Claim C6, as the code has it. Let the store and the user's functions keep a log of
  their own calls and answers; the run is the same run, and the log is the list of the
  calls of its trace. Take a call in the log that failed and is not a call of the
  filter: a view query, a multi-get or a bulk write whose callback was given an error,
  a keys or changes callback that threw (a synchronous one) or handed an error to its
  callback (an asynchronous one), logged as \<open>Failed e\<close>; or an asynchronous keys or
  changes callback that threw, logged as \<open>Threw e\<close>. Then it is the last call of the log,
  so no page and no sub-batch is processed after it, and no such call failed before it.
  For \<open>Failed e\<close> the run is finished and its trace ends with the failed call and
  \<open>complete(e)\<close>, the only call of \<open>complete\<close>. For \<open>Threw e\<close> the exception leaves the
  program: the trace ends with the call, and \<open>complete\<close> is never called.
\<close>

theorem fatal_error_aborts_migration:
  fixes db :: "('k, 'v, 'd, 'w, 'y) store_scheme" and opts :: "('k, 'v, 'd, 'w, 'z) options_scheme"
  assumes run: "migrate fuel (recording db) (recording_opts opts) (w, []) = (fin, st, evs)"
    and at: "snd (world st) = pre @ (c, Some f) # post"
    and fc: "fatal c"
  shows "migrate fuel db opts w = (fin, without_log st, evs) \<and>
         snd (world st) = calls evs \<and>
         post = [] \<and>
         (\<forall>(c', out) \<in> set pre. fatal c' \<longrightarrow> out = None) \<and>
         (case f of
            Failed e \<Rightarrow>
              fin = Finished \<and>
              (\<exists>evs0. evs = evs0 @ [Called c (Some (Failed e)), Complete (Some e)] \<and> noComplete evs0)
          | Threw e \<Rightarrow>
              fin = Crashed e \<and>
              (\<exists>evs0. evs = evs0 @ [Called c (Some (Threw e))] \<and> noComplete evs0))"
proof -
  obtain fin0 st0 evs0 where b: "migrate fuel db opts w = (fin0, st0, evs0)"
    by (rule prod_cases3)
  from migrate_recording[of fuel db opts w "[]"] run b
  have e: "fin = fin0" "st = with_log st0 (calls evs0)" "evs = evs0" by simp_all
  have base: "migrate fuel db opts w = (fin, without_log st, evs)" using b e by simp
  have lg: "snd (world st) = calls evs" using e by simp
  from at lg have at': "calls evs = pre @ (c, Some f) # post" by simp
  then have mem: "(c, Some f) \<in> set (calls evs)" by simp
  from b e have "case fin of OutOfFuel \<Rightarrow> ended None evs | Finished \<Rightarrow> finished_trace evs
      | Crashed e \<Rightarrow> ended (Some (Threw e)) evs"
    unfolding migrate_def getViewInBatches_def
    by (intro nextBatch_ended[OF batchHandler_ok]) simp
  note tr = this
  have last: "post = [] \<and> (\<forall>(c', out) \<in> set pre. fatal c' \<longrightarrow> out = None) \<and> c = c' \<and> f = f' \<and> pre = calls p0"
    if p0: "calls evs = calls p0 @ [(c', Some f')]" "clean p0" for p0 c' f'
  proof -
    have "(c, Some f) \<notin> set (calls p0)" using clean_calls[OF p0(2) _ fc, of "Some f"] by auto
    from split_at_last[OF at'[unfolded p0(1)] this]
    have s: "pre = calls p0" "c = c'" "f = f'" "post = []" by simp_all
    have "\<forall>(c', out) \<in> set pre. fatal c' \<longrightarrow> out = None"
      unfolding s(1) using clean_calls[OF p0(2)] by auto
    with s show ?thesis by simp
  qed
  have main: "post = [] \<and> (\<forall>(c', out) \<in> set pre. fatal c' \<longrightarrow> out = None) \<and>
         (case f of
            Failed e \<Rightarrow>
              fin = Finished \<and>
              (\<exists>evs0. evs = evs0 @ [Called c (Some (Failed e)), Complete (Some e)] \<and> noComplete evs0)
          | Threw e \<Rightarrow>
              fin = Crashed e \<and>
              (\<exists>evs0. evs = evs0 @ [Called c (Some (Threw e))] \<and> noComplete evs0))"
  proof (cases fin)
    case OutOfFuel
    with tr have "clean evs" by simp
    from clean_calls[OF this mem fc] show ?thesis by simp
  next
    case Finished
    with tr have "finished_trace evs" by simp
    then obtain p r where p: "evs = p @ [Complete r]" "ended (map_option Failed r) p"
      unfolding finished_trace_def by blast
    show ?thesis
    proof (cases r)
      case None
      with p(2) have "clean p" by simp
      from clean_calls[OF this _ fc, of "Some f"] mem p(1) show ?thesis by simp
    next
      case (Some e')
      with p(2) have ab: "aborted (Failed e') p" and nc: "noComplete p" by simp_all
      from ab obtain p0 c' where p0: "p = p0 @ [Called c' (Some (Failed e'))]" "fatal c'" "clean p0"
        unfolding aborted_def by blast
      have "calls evs = calls p0 @ [(c', Some (Failed e'))]" using p(1) p0(1) by simp
      from last[OF this p0(3)]
      have l: "post = []" "\<forall>(c', out) \<in> set pre. fatal c' \<longrightarrow> out = None" "c = c'" "f = Failed e'"
        by simp_all
      have "evs = p0 @ [Called c (Some (Failed e')), Complete (Some e')]"
        using p(1) p0(1) Some l(3) by simp
      moreover have "noComplete p0" using nc p0(1) by simp
      ultimately have "\<exists>evs0. evs = evs0 @ [Called c (Some (Failed e')), Complete (Some e')] \<and> noComplete evs0"
        by blast
      with l Finished show ?thesis by simp
    qed
  next
    case (Crashed e')
    with tr have ab: "aborted (Threw e') evs" and nc: "noComplete evs" by simp_all
    from ab obtain p0 c' where p0: "evs = p0 @ [Called c' (Some (Threw e'))]" "fatal c'" "clean p0"
      unfolding aborted_def by blast
    have "calls evs = calls p0 @ [(c', Some (Threw e'))]" using p0(1) by simp
    from last[OF this p0(3)]
    have l: "post = []" "\<forall>(c', out) \<in> set pre. fatal c' \<longrightarrow> out = None" "c = c'" "f = Threw e'"
      by simp_all
    have "evs = p0 @ [Called c (Some (Threw e'))]" using p0(1) l(3) by simp
    moreover have "noComplete p0" using nc p0(1) by simp
    ultimately have "\<exists>evs0. evs = evs0 @ [Called c (Some (Threw e'))] \<and> noComplete evs0" by blast
    with l Crashed show ?thesis by simp
  qed
  from base lg main show ?thesis by simp
qed

text \<open>
  The theorem at the store whose bulk call fails: the log and the trace end with the
  failed bulk call, and the trace goes on with \<open>complete(error)\<close> only.
\<close>

theorem fatal_error_aborts_migration_witness:
  "fst (migrate 2 (recording broken_db) (recording_opts (own_doc_opts RetryAbsent)) (0, [])) = Finished \<and>
   snd (world (fst (snd
     (migrate 2 (recording broken_db) (recording_opts (own_doc_opts RetryAbsent)) (0, []))))) =
     [(View \<lparr>limit = Some 1001, startkey = None, startkey_docid = None\<rparr>, None),
      (FetchKeysCb row_a, None),
      (FetchKeysCb row_b, None),
      (Fetch [''a'', ''b''], None),
      (ChangesCb keyed_a (Some [Some (''a'', 0)]), None),
      (ChangesCb keyed_b (Some [Some (''b'', 0)]), None),
      (Bulk [(''a'', 0), (''b'', 0)], Some (Failed (Err ''down'')))] \<and>
   (\<exists>evs0. snd (snd
      (migrate 2 (recording broken_db) (recording_opts (own_doc_opts RetryAbsent)) (0, []))) =
      evs0 @ [Called (Bulk [(''a'', 0), (''b'', 0)]) (Some (Failed (Err ''down''))),
              Complete (Some (Err ''down''))] \<and> noComplete evs0)"
proof -
  obtain fin st evs where
    p: "migrate 2 (recording broken_db) (recording_opts (own_doc_opts RetryAbsent)) (0, []) = (fin, st, evs)"
    by (rule prod_cases3)
  have two: "(2::nat) = Suc (Suc 0)" by simp
  from migrate_recording[of 2 broken_db "own_doc_opts RetryAbsent" 0 "[]"] p
  have st: "snd (world st) =
     [(View \<lparr>limit = Some 1001, startkey = None, startkey_docid = None\<rparr>, None),
      (FetchKeysCb row_a, None),
      (FetchKeysCb row_b, None),
      (Fetch [''a'', ''b''], None),
      (ChangesCb keyed_a (Some [Some (''a'', 0)]), None),
      (ChangesCb keyed_b (Some [Some (''b'', 0)]), None)]
     @ (Bulk [(''a'', 0), (''b'', 0)], Some (Failed (Err ''down''))) # []"
    unfolding two broken_run by auto
  have fc: "fatal (Bulk [(''a'', 0::nat), (''b'', 0)] :: (nat, unit, docid \<times> nat) call)" by simp
  note th = fatal_error_aborts_migration[OF p st fc]
  from th have "fin = Finished"
    and "\<exists>evs0. evs = evs0 @ [Called (Bulk [(''a'', 0), (''b'', 0)]) (Some (Failed (Err ''down''))),
              Complete (Some (Err ''down''))] \<and> noComplete evs0"
    by simp_all
  with st show ?thesis unfolding p by simp
qed

text \<open>
  Against C6 as stated: a changes callback that declares the callback parameter and
  throws for row \<open>b\<close>. The error is thrown by the changes callback, and the migration
  stops, but \<open>complete\<close> is not called, with the error or without: \<open>wrapAsync\<close> returned the
  function as it is, and the call in \<open>runChanges\<close> has no \<open>try\<close> around it.
\<close>

theorem async_throw_counterexample:
  "changes throwing_opts = AsyncFn (\<lambda>(row, docs) w.
      (if row_key row = 2 then Inl (Threw (Err ''bug'')) else Inr (Several [(''a'', 0)]), w)) \<and>
   migrate 2 (flaky_db 0) throwing_opts 0 =
     (Crashed (Err ''bug''), \<lparr>world = 0, limit_left = None, realcurrent = 0, batch_no = 1\<rparr>,
      [Called (View \<lparr>limit = Some 1001, startkey = None, startkey_docid = None\<rparr>) None,
       PageHandler [row_a, row_b],
       Tick 0 0,
       SubBatch [row_a, row_b],
       Called (FetchKeysCb row_a) None,
       Called (FetchKeysCb row_b) None,
       Called (ChangesCb row_a None) None,
       Called (ChangesCb row_b None) (Some (Threw (Err ''bug'')))]) \<and>
   Complete (Some (Err ''bug''))
     \<notin> set (snd (snd (migrate 2 (flaky_db 0) throwing_opts 0 ::
          ending \<times> nat mstate \<times> (nat, unit, docid \<times> nat) event list)))"
  unfolding throwing_run by (simp add: throwing_opts_def)

section \<open>No \<open>fetchKeys\<close> callback\<close>

lemma series_const:
  "series mk (\<lambda>x w. (Inr c, w)) xs w =
     (Inr (map (\<lambda>x. c) xs), w, map (\<lambda>x. Called (mk x) None) xs)"
  by (induction xs) auto

lemma attempt_noDocs:
  fixes db :: "('k, 'v, 'd, 'w, 'y) store_scheme" and opts :: "('k, 'v, 'd, 'w, 'z) options_scheme"
  assumes nk: "\<forall>row \<in> set batch. extraKeys row = []"
    and a: "attempt db opts batch w = (r, w', evs)"
  shows "list_all noDocs evs"
proof -
  have c: "concat (map extraKeys batch) = []" using nk by simp
  have f: "fetchExtraDocs db batch w = (Inr [], w, [])"
    using nk by (simp add: fetchExtraDocs_def Let_def)
  obtain r3 w3 and evs3 :: "('k, 'v, 'd) event list" where s:
    "series (\<lambda>(row, docs). ChangesCb row docs) (changesFn opts)
       (map (\<lambda>i. (batch ! i, docsAt [] i)) [0..<length batch]) w = (r3, w3, evs3)"
    using prod_cases3 by blast
  have "list_all noDocs evs3"
    by (rule series_all[OF s]) (auto simp: docsAt_def)
  with a f s show ?thesis
    by (auto simp: attempt_def runChanges_def Let_def split: prod.splits sum.splits)
qed

lemma processBatch_noDocs:
  fixes db :: "('k, 'v, 'd, 'w, 'y) store_scheme" and opts :: "('k, 'v, 'd, 'w, 'z) options_scheme"
    and st :: "'w mstate"
  assumes nk: "\<forall>row \<in> set batch. extraKeys row = []"
    and p: "processBatch db opts batch retry st = (res, st', evs)"
  shows "list_all noDocs evs"
proof (rule processBatch_all[OF _ _ _ _ _ p])
  show "set batch \<subseteq> set batch" by simp
next
  fix batch' w r w' and evs :: "('k, 'v, 'd) event list"
  assume "set batch' \<subseteq> set batch" and a: "attempt db opts batch' w = (r, w', evs)"
  with nk have "\<forall>row \<in> set batch'. extraKeys row = []" by auto
  from attempt_noDocs[OF this a] show "list_all noDocs evs" .
qed simp_all

lemma getExtraKeyInfo_noDocs:
  fixes db :: "('k, 'v, 'd, 'w, 'y) store_scheme" and opts :: "('k, 'v, 'd, 'w, 'z) options_scheme"
    and st :: "'w mstate"
  assumes nf: "fetchKeys opts = None"
    and g: "getExtraKeyInfo db opts batch st = (res, st', evs)"
  shows "list_all noDocs evs"
proof -
  have fk: "fetchKeysFn opts = (\<lambda>key w. (Inr Absent, w))"
    by (simp add: fetchKeysFn_def nf)
  let ?b = "map (\<lambda>(row, keys). row\<lparr>extraKeys := normalizeKeys keys\<rparr>)
              (zip batch (map (\<lambda>x. Absent) batch))"
  obtain r2 st2 evs2 where p: "processBatch db opts ?b 0 st = (r2, st2, evs2)"
    using prod_cases3 by blast
  have "\<forall>row \<in> set ?b. extraKeys row = []" by (auto dest!: set_zip_rightD)
  from processBatch_noDocs[OF this p] have e2: "list_all noDocs evs2" .
  have e1: "list_all noDocs (map (\<lambda>x. Called (FetchKeysCb x) None) batch)"
    by (induction batch) auto
  from g p e1 e2 show ?thesis
    by (auto simp: getExtraKeyInfo_def fk series_const)
qed

lemma subBatches_noDocs:
  fixes db :: "('k, 'v, 'd, 'w, 'y) store_scheme" and opts :: "('k, 'v, 'd, 'w, 'z) options_scheme"
    and st :: "'w mstate"
  shows "fetchKeys opts = None \<Longrightarrow> subBatches db opts rows count st = (res, st', evs) \<Longrightarrow>
     list_all noDocs evs"
proof (induction db opts rows count st arbitrary: res st' evs rule: subBatches.induct)
  case (1 db opts rows count st)
  show ?case
  proof (cases "count < length rows")
    case False
    with "1.prems" show ?thesis by (subst (asm) subBatches.simps) auto
  next
    case True
    obtain r st1 evs1 where g: "getExtraKeyInfo db opts (take (batchSizeOf opts) (drop count rows)) st = (r, st1, evs1)"
      using prod_cases3 by blast
    note e1 = getExtraKeyInfo_noDocs[OF "1.prems"(1) g]
    show ?thesis
    proof (cases r)
      case (Some e)
      with True g e1 "1.prems" show ?thesis by (subst (asm) subBatches.simps) auto
    next
      case None
      obtain r2 st2 evs2 where s: "subBatches db opts rows (count + batchSizeOf opts) st1 = (r2, st2, evs2)"
        using prod_cases3 by blast
      from "1.IH"[OF True g[symmetric] None refl "1.prems"(1) s] e1
      have "list_all noDocs (evs1 @ evs2)" by simp
      with True g None s "1.prems" show ?thesis by (subst (asm) subBatches.simps) auto
    qed
  qed
qed

lemma filterRows_noDocs:
  fixes evs :: "('k, 'v, 'd) event list"
  shows "filterRows f rows w = (kept, w', evs) \<Longrightarrow> list_all noDocs evs"
proof (induction rows arbitrary: w kept w' evs)
  case Nil then show ?case by simp
next
  case (Cons row rows)
  obtain v w1 where f: "f row w = (v, w1)" by (cases "f row w")
  obtain k2 w2 and evs2 :: "('k, 'v, 'd) event list"
    where r: "filterRows f rows w1 = (k2, w2, evs2)"
    using prod_cases3 by blast
  from Cons.IH[OF r] f r Cons.prems show ?case by (cases v) auto
qed

lemma batchHandler_noDocs:
  fixes db :: "('k, 'v, 'd, 'w, 'y) store_scheme" and opts :: "('k, 'v, 'd, 'w, 'z) options_scheme"
    and st0 :: "'w mstate" and evs :: "('k, 'v, 'd) event list"
  assumes nf: "fetchKeys opts = None"
    and b: "batchHandler db opts rows0 st0 = (h, st', evs)"
  shows "list_all noDocs evs"
proof -
  obtain rows1 w and evs1 :: "('k, 'v, 'd) event list" where f:
    "(case sourceFilter opts of None \<Rightarrow> (rows0, world st0, [])
      | Some f \<Rightarrow> filterRows f rows0 (world st0)) = (rows1, w, evs1)"
    using prod_cases3 by blast
  have e1: "list_all noDocs evs1"
    using f filterRows_noDocs by (cases "sourceFilter opts") auto
  obtain rows lim where a: "applyLimit (limit_left st0) rows1 = (rows, lim)"
    by (cases "applyLimit (limit_left st0) rows1")
  let ?st2 = "st0\<lparr>batch_no := Suc (batch_no st0), world := w, limit_left := lim\<rparr>"
  obtain r st3 evs2 where s: "subBatches db opts rows 0 ?st2 = (r, st3, evs2)"
    using prod_cases3 by blast
  note e2 = subBatches_noDocs[OF nf s]
  from b f a s e1 e2 show ?thesis
    by (auto simp: batchHandler_unfold split: if_splits option.splits failure.splits)
qed

lemma nextBatch_all:
  fixes db :: "('k, 'v, 'd, 'w, 'y) store_scheme" and st :: "'w mstate"
  assumes h: "\<And>rows st h st' evs. handler rows st = (h, st', evs) \<Longrightarrow> list_all Q evs"
    and q: "\<And>ps out. Q (Called (View ps) out)" "\<And>rows. Q (PageHandler rows)" "\<And>r. Q (Complete r)"
  shows "nextBatch fuel db pageSize handler ps st = (fin, st', evs) \<Longrightarrow> list_all Q evs"
proof (induction fuel arbitrary: ps st fin st' evs)
  case 0 then show ?case by simp
next
  case (Suc fuel)
  obtain v w where v: "db_view db ps (world st) = (v, w)" by (cases "db_view db ps (world st)")
  show ?case
  proof (cases v)
    case (Inl err)
    with v Suc.prems q show ?thesis by auto
  next
    case (Inr body_rows)
    obtain hr st1 evs1 where hd: "handler (take pageSize body_rows) (st\<lparr>world := w\<rparr>) = (hr, st1, evs1)"
      using prod_cases3 by blast
    note e1 = h[OF hd]
    obtain f2 st2 evs2 where n: "nextBatch fuel db pageSize handler (advance ps (body_rows ! pageSize)) st1 = (f2, st2, evs2)"
      using prod_cases3 by blast
    note ih = Suc.IH[OF n]
    from v Inr hd n e1 ih Suc.prems q show ?thesis
      by (auto split: handled.splits option.splits if_splits)
  qed
qed

text \<open>
  When \<open>fetchKeys\<close> is not configured, the trace of a migration holds no multi-get, and
  every call of the changes callback has no document group as its second argument:
  \<open>extraDocs\<close> stays \<open>[]\<close>, so \<open>extraDocs[i]\<close> is \<open>undefined\<close>.
\<close>

lemma no_fetchKeys_trace:
  fixes db :: "('k, 'v, 'd, 'w, 'y) store_scheme" and opts :: "('k, 'v, 'd, 'w, 'z) options_scheme"
  assumes nf: "fetchKeys opts = None"
    and run: "migrate fuel db opts w = (fin, st, evs)"
  shows "(\<forall>ks out. Called (Fetch ks) out \<notin> set evs) \<and>
         (\<forall>row docs out. Called (ChangesCb row docs) out \<in> set evs \<longrightarrow> docs = None)"
proof -
  have "list_all noDocs evs"
    using run unfolding migrate_def getViewInBatches_def
    by (rule nextBatch_all[rotated -1]) (auto intro: batchHandler_noDocs[OF nf])
  then have "\<forall>ev \<in> set evs. noDocs ev" by (simp add: list_all_iff)
  then show ?thesis by (metis noDocs.simps(1,2))
qed

text \<open>
  Claim C9 at a view row \<open>a\<close> with no \<open>fetchKeys\<close> configured. No multi-get is made, but
  the changes callback is called with \<open>undefined\<close> (\<open>None\<close>) as its second argument, not
  with an empty document group: with no key in the sub-batch \<open>processBatch\<close> leaves
  \<open>extraDocs = []\<close> and passes \<open>extraDocs[i]\<close>. The other branch of the same function
  does give a row without keys its empty group: when \<open>fetchKeys\<close> returns a key for row
  \<open>b\<close> and none for row \<open>a\<close>, the multi-get is made and \<open>unflatten\<close> hands row \<open>a\<close> the
  group \<open>[]\<close>.
\<close>

theorem no_fetchKeys_passes_undefined:
  "fetchKeys no_keys_opts = None \<and>
   getExtraKeyInfo (flaky_db 0) no_keys_opts [row_a] start =
     (None, \<lparr>world = 1, limit_left = None, realcurrent = 1, batch_no = 0\<rparr>,
      [SubBatch [row_a],
       Called (FetchKeysCb row_a) None,
       Called (ChangesCb row_a None) None,
       Called (Bulk [(''a'', 0)]) None,
       ProcessErrors 0 [row_a] [[Written]],
       Tick 1 1]) \<and>
   getExtraKeyInfo (flaky_db 0) b_key_opts [row_a, row_b] start =
     (None, \<lparr>world = 1, limit_left = None, realcurrent = 2, batch_no = 0\<rparr>,
      [SubBatch [row_a, row_b],
       Called (FetchKeysCb row_a) None,
       Called (FetchKeysCb row_b) None,
       Called (Fetch [''b'']) None,
       Called (ChangesCb row_a (Some [])) None,
       Called (ChangesCb keyed_b (Some [Some (''b'', 0)])) None,
       Called (Bulk [(''a'', 0), (''b'', 0)]) None,
       ProcessErrors 0 [row_a, keyed_b] [[Written], [Written]],
       Tick 2 2])"
  by (simp add: no_keys_opts_def b_key_opts_def eval_defs processBatch.simps)

section \<open>Paging\<close>

text \<open>
  Claim C5, as the code has it. Take a store that serves a fixed view of \<open>N\<close> rows in
  view order, a scan that starts without a start key, a page size \<open>P > 0\<close> and a handler
  that always calls back without an error. With enough fuel the scan ends with
  \<open>complete()\<close>; every query asks for \<open>P + 1\<close> rows and succeeds; the number of queries
  is \<open>max 1 \<lceil>N / P\<rceil>\<close>, one even for an empty view; the pages handed to the handler
  have at most \<open>P\<close> rows each and, one after the other, are exactly the rows of the view
  in view order.
\<close>

theorem scanner_pages_every_row_once:
  fixes db :: "('k::linorder, 'v, 'd, 'w, 'y) store_scheme" and st :: "'w mstate"
  assumes srv: "serves rows db" and ord: "view_order rows" and P: "0 < P"
    and fresh: "startkey ps = None" and q: "quiet handler"
    and fuel: "length rows div P < fuel"
    and run: "getViewInBatches fuel db ps P handler st = (fin, st', evs)"
  shows "fin = Finished \<and>
         map (\<lambda>(ps, out). (limit ps, out)) (views evs)
           = replicate (max 1 ((length rows + P - 1) div P)) (Some (P + 1), None) \<and>
         concat (pages evs) = rows \<and>
         list_all (\<lambda>p. length p \<le> P) (pages evs) \<and>
         (\<exists>pre. evs = pre @ [Complete None] \<and> noComplete pre)"
proof -
  have f: "filter (at_or_after (ps\<lparr>limit := Some (P + 1)\<rparr>)) rows = rows"
    using fresh by (simp add: at_or_after_def)
  from nextBatch_scan[OF srv ord P q[unfolded quiet_def], where seen = "[]" and rest = rows
      and ps = "ps\<lparr>limit := Some (P + 1)\<rparr>" and st = st and fuel = fuel and fin = fin
      and st' = st' and evs = evs]
    f fuel run
  show ?thesis by (simp add: getViewInBatches_def)
qed

text \<open>
  The theorem at a view of three rows read two rows at a time: two queries for three
  rows each, the pages are the rows 0, 1 and the row 2.
\<close>

theorem scanner_pages_every_row_once_witness:
  "fst (getViewInBatches 5 (view_db (map numbered_row [0..<3])) emptyParams 2 page_counter start)
     = Finished \<and>
   map (\<lambda>(ps, out). (limit ps, out))
     (views (snd (snd (getViewInBatches 5 (view_db (map numbered_row [0..<3])) emptyParams 2
                         page_counter start))))
     = [(Some 3, None), (Some 3, None)] \<and>
   pages (snd (snd (getViewInBatches 5 (view_db (map numbered_row [0..<3])) emptyParams 2
                      page_counter start)))
     = [[numbered_row 0, numbered_row 1], [numbered_row 2]]"
proof -
  obtain fin st' evs where
    p: "getViewInBatches 5 (view_db (map numbered_row [0..<3])) emptyParams 2 page_counter start
          = (fin, st', evs)"
    by (rule prod_cases3)
  have fresh: "startkey (emptyParams :: nat params) = None" by (simp add: emptyParams_def)
  have fuel: "length (map numbered_row [0..<3]) div 2 < 5" by simp
  note th = scanner_pages_every_row_once[OF serves_view_db numbered_order _ fresh
      page_counter_quiet fuel p]
  have pg: "pages evs = [[numbered_row 0, numbered_row 1], [numbered_row 2]]"
    using p
    by (auto simp: getViewInBatches_def eval_nat_numeral view_db_def couch_view_def at_or_after_def
          emptyParams_def page_counter_def advance_def truthy_id_def numbered_row_def start_def
          upt_rec pages_def)
  have rp: "replicate 2 x = [x, x]" for x :: "nat option \<times> failure option"
    by (simp add: numeral_2_eq_2)
  from th pg show ?thesis unfolding p by (simp add: rp)
qed

text \<open>
  Against C5 as stated: on an empty view (\<open>N = 0\<close>) the migration issues one page
  request, while \<open>\<lceil>0 / 1000\<rceil>\<close> is 0.
\<close>

theorem empty_view_counterexample:
  "views (snd (snd (migrate (Suc 0) (view_db []) no_keys_opts 0))) =
     [(\<lparr>limit = Some 1001, startkey = None, startkey_docid = None\<rparr>, None)] \<and>
   (length ([] :: (nat, unit) row list) + 1000 - 1) div 1000 = 0"
  by (simp add: migrate_def getViewInBatches_def emptyParams_def initialState_def
        batchHandler_def applyLimit_def no_keys_opts_def view_db_def couch_view_def views_def)

section \<open>The row budget\<close>

lemma applyLimit_zero: "applyLimit (Some 0) rows = ([], Some 0)"
  by (simp add: applyLimit_def js_slice_def Let_def)

lemma limit_zero_quiet:
  fixes db :: "('k, 'v, 'd, 'w, 'y) store_scheme" and opts :: "('k, 'v, 'd, 'w, 'z) options_scheme"
  assumes "sourceFilter opts = None"
  shows "quiet_on (\<lambda>st. limit_left st = Some 0) (\<lambda>ev. False) (batchHandler db opts)"
  using assms by (simp add: quiet_on_def batchHandler_unfold applyLimit_zero)

text \<open>
  Claim C4 at the budget \<open>limit = 0\<close>, on a view of 2000 rows. The first page is cut to
  no rows, which exhausts the budget of 0, and \<open>limit\<close> is 0 from then on; but an empty
  page returns \<open>nextBatch()\<close> before the test \<open>limit === 0 ? complete : nextBatch\<close> is
  reached, so the scan does not stop after that page: the run issues both page requests
  and is handed all 2000 rows of the view, its trace holds nothing but the scanner's
  own events (no sub-batch is processed), and \<open>complete\<close> is called only when the view
  is exhausted.
\<close>

theorem limit_zero_keeps_scanning:
  "row_limit zero_limit_opts = Some 0 \<and>
   fst (migrate 3 (view_db (map numbered_row [0..<2000])) zero_limit_opts 0) = Finished \<and>
   map (\<lambda>(ps, out). (limit ps, out))
     (views (snd (snd (migrate 3 (view_db (map numbered_row [0..<2000])) zero_limit_opts 0))))
     = [(Some 1001, None), (Some 1001, None)] \<and>
   concat (pages (snd (snd (migrate 3 (view_db (map numbered_row [0..<2000])) zero_limit_opts 0))))
     = map numbered_row [0..<2000] \<and>
   list_all isScan (snd (snd (migrate 3 (view_db (map numbered_row [0..<2000])) zero_limit_opts 0)))"
proof -
  let ?rows = "map numbered_row [0..<2000]"
  let ?ps = "(emptyParams :: nat params)\<lparr>limit := Some (1000 + 1)\<rparr>"
  obtain fin st' evs where
    p: "migrate 3 (view_db ?rows) zero_limit_opts 0 = (fin, st', evs)"
    by (rule prod_cases3)
  have sf: "sourceFilter zero_limit_opts = None" "sourceParams zero_limit_opts = None"
    "row_limit zero_limit_opts = Some 0"
    by (simp_all add: zero_limit_opts_def no_keys_opts_def)
  have n: "nextBatch 3 (view_db ?rows) 1000 (batchHandler (view_db ?rows) zero_limit_opts) ?ps
             (initialState zero_limit_opts 0) = (fin, st', evs)"
    using p by (simp add: migrate_def getViewInBatches_def sf)
  have i: "limit_left (initialState zero_limit_opts 0) = Some 0"
    by (simp add: initialState_def sf)
  have f: "filter (at_or_after ?ps) ?rows = ?rows"
    by (simp add: at_or_after_def emptyParams_def)
  have fuel: "length ?rows div 1000 < 3" by simp
  have rp: "replicate 2 x = [x, x]" for x :: "nat option \<times> failure option"
    by (simp add: numeral_2_eq_2)
  from nextBatch_scan[OF serves_view_db numbered_order _ limit_zero_quiet[OF sf(1)],
      where seen = "[]" and rest = ?rows and ps = ?ps and fuel = 3, OF _ i _ _ f fuel n]
  have "fin = Finished"
    and "map (\<lambda>(ps, out). (limit ps, out)) (views evs) = [(Some 1001, None), (Some 1001, None)]"
    and "concat (pages evs) = ?rows"
    and "list_all isScan evs"
    by (simp_all add: emptyParams_def rp)
  with sf(3) show ?thesis unfolding p by simp
qed

end
